theory Spec2Isabelle
  imports Main
begin

section \<open>Strings\<close>

text \<open>
  A JavaScript string is a list of UTF-16 code units.  The code units of the model are
  those below 256 (the Latin-1 range) and the two separators U+2028 and U+2029, which
  regular expressions and \<open>trim\<close> treat as line terminators.  On these code units the
  functions below are the ones of the platform: \<open>toLowerCase\<close> maps A-Z and the upper-case
  letters 0xC0-0xDE (without the multiplication sign 0xD7) to the letter 32 positions
  further, \<open>\s\<close> and \<open>trim\<close> see tab, line feed, vertical tab, form feed, carriage
  return, space, no-break space and the two separators, the dot of a regular expression
  refuses line feed, carriage return and the two separators, and a word character is an
  ASCII letter, a digit or the underscore.
\<close>

datatype code_unit = Latin char | LineSeparator | ParagraphSeparator

type_synonym jstring = "code_unit list"

text \<open>\<open>str\<close> turns a literal of Latin-1 characters into a string.\<close>

abbreviation str :: "string \<Rightarrow> jstring" where
  "str s \<equiv> map Latin s"

definition lower_char :: "char \<Rightarrow> char" where
  "lower_char c =
     (let n = of_char c :: nat
      in if (65 \<le> n \<and> n \<le> 90) \<or> (192 \<le> n \<and> n \<le> 222 \<and> n \<noteq> 215)
         then char_of (n + 32) else c)"

fun lower_unit :: "code_unit \<Rightarrow> code_unit" where
  "lower_unit (Latin c) = Latin (lower_char c)"
| "lower_unit u = u"

definition toLowerCase :: "jstring \<Rightarrow> jstring" where
  "toLowerCase s = map lower_unit s"


definition startsWith :: "jstring \<Rightarrow> jstring \<Rightarrow> bool" where
  "startsWith s p = (take (length p) s = p)"

text \<open>\<open>str_includes s t\<close> is \<open>s.includes(t)\<close>: \<open>t\<close> occurs in \<open>s\<close> at some position.\<close>

fun str_includes :: "jstring \<Rightarrow> jstring \<Rightarrow> bool" where
  "str_includes [] t = (t = [])"
| "str_includes (c # cs) t = (startsWith (c # cs) t \<or> str_includes cs t)"

text \<open>\<open>join xs sep\<close> is \<open>xs.join(sep)\<close> on an array of strings.\<close>

fun join :: "jstring list \<Rightarrow> jstring \<Rightarrow> jstring" where
  "join [] sep = []"
| "join [x] sep = x"
| "join (x # y # ys) sep = x @ sep @ join (y # ys) sep"

definition digit_char :: "nat \<Rightarrow> code_unit" where
  "digit_char d = str ''0123456789'' ! d"

text \<open>
  The decimal rendering of a number that is an integer.  The platform renders an integer
  this way as long as its magnitude is below \<open>10^21\<close>; the model uses \<open>show_int\<close> only
  for array lengths, array indices and differences the code prints when they are positive
  and below an array length.
\<close>

function show_nat :: "nat \<Rightarrow> jstring" where
  "show_nat n = (if n < 10 then [digit_char n] else show_nat (n div 10) @ [digit_char (n mod 10)])"
  by pat_completeness auto
termination
  by (relation "measure id") auto

declare show_nat.simps [simp del]

definition show_int :: "int \<Rightarrow> jstring" where
  "show_int i = (if i < 0 then Latin (CHR ''-'') # show_nat (nat (- i)) else show_nat (nat i))"

definition LF :: code_unit where
  "LF = Latin (CHR 0x0A)"

fun is_line_terminator :: "code_unit \<Rightarrow> bool" where
  "is_line_terminator (Latin c) = (c = CHR 0x0A \<or> c = CHR 0x0D)"
| "is_line_terminator LineSeparator = True"
| "is_line_terminator ParagraphSeparator = True"

section \<open>The event-site server\<close>

subsection \<open>Tool-call envelope\<close>

text \<open>
  The envelope \<open>{ content: [{ type: "text", text }], isError? }\<close>.  \<open>isError\<close> is
  \<open>None\<close> when the handler leaves the property out.
\<close>

record envelope =
  content_text :: jstring
  isError :: "bool option"

definition ok_envelope :: "jstring \<Rightarrow> envelope" where
  "ok_envelope t = \<lparr>content_text = t, isError = None\<rparr>"

definition error_envelope :: "jstring \<Rightarrow> envelope" where
  "error_envelope t = \<lparr>content_text = t, isError = Some True\<rparr>"

subsection \<open>Site registry\<close>

datatype site = Pmc | Unpaved | Wintercycle

record event_site =
  name :: jstring
  baseUrl :: jstring
  sitemapPath :: jstring

fun site_key :: "site \<Rightarrow> jstring" where
  "site_key Pmc = str ''pmc''"
| "site_key Unpaved = str ''unpaved''"
| "site_key Wintercycle = str ''wintercycle''"

fun EVENT_SITES :: "site \<Rightarrow> event_site option" where
  "EVENT_SITES Pmc = Some \<lparr>name = str ''Pan-Mass Challenge'', baseUrl = str ''https://www.pmc.org'',
      sitemapPath = str ''/sitemap.xml''\<rparr>"
| "EVENT_SITES Unpaved = Some \<lparr>name = str ''Unpaved'', baseUrl = str ''https://www.unpaved.org'',
      sitemapPath = str ''/sitemap.xml''\<rparr>"
| "EVENT_SITES Wintercycle = Some \<lparr>name = str ''Winter Cycle'', baseUrl = str ''https://www.wintercycle.org'',
      sitemapPath = str ''/sitemap.xml''\<rparr>"

definition VALID_SITES :: jstring where
  "VALID_SITES = join (map site_key [Pmc, Unpaved, Wintercycle]) (str '', '')"

subsection \<open>Remote content fetcher\<close>

text \<open>
  What the network answers to a GET is an input of the model: the request is rejected with
  a message, or a response arrives with its \<open>ok\<close> flag, its status and the outcome of
  reading its body (\<open>Inl\<close> a message when reading fails).
\<close>

datatype fetch_outcome =
  Rejected jstring
| Responded bool nat "jstring + jstring"

text \<open>\<open>fetchContent\<close> returns \<open>Inl\<close> the message of the error it throws, or \<open>Inr\<close> the body.\<close>

definition fetchContent :: "(jstring \<Rightarrow> fetch_outcome) \<Rightarrow> jstring \<Rightarrow> jstring + jstring" where
  "fetchContent net url =
     (let failed = (\<lambda>errorMessage. Inl (str ''Failed to fetch from '' @ url @ str '': '' @ errorMessage))
      in case net url of
           Rejected m \<Rightarrow> failed m
         | Responded ok status body \<Rightarrow>
             if \<not> ok then failed (str ''HTTP error! status: '' @ show_nat status)
             else (case body of Inl m \<Rightarrow> failed m | Inr t \<Rightarrow> Inr t))"

subsection \<open>Sitemap parser\<close>

text \<open>
  \<open>lazy_loc\<close> is the tail \<open>(.*?)<\/loc>\<close> of the pattern, run right after an opening
  \<open><loc>\<close>: the lazy star first tries to close, and otherwise takes one more character
  that is not a line terminator.  It returns the captured text and the input after the
  match, or \<open>None\<close> when the pattern fails at this start.
\<close>

fun lazy_loc :: "jstring \<Rightarrow> jstring \<Rightarrow> (jstring \<times> jstring) option" where
  "lazy_loc acc [] = None"
| "lazy_loc acc (c # cs) =
     (if startsWith (c # cs) (str ''</loc>'') then Some (acc, drop 6 (c # cs))
      else if is_line_terminator c then None
      else lazy_loc (acc @ [c]) cs)"

lemma lazy_loc_length: "lazy_loc acc s = Some (cap, rest) \<Longrightarrow> length rest < length s"
  by (induction acc s rule: lazy_loc.induct) (auto split: if_splits)

text \<open>
  The \<open>exec\<close> loop of \<open>parseSitemap\<close>: the global pattern is tried at every start
  position from \<open>lastIndex\<close> on; a match pushes its capture and moves \<open>lastIndex\<close> behind
  the match, and the loop ends when no start position is left.
\<close>

function exec_loop :: "jstring \<Rightarrow> jstring list \<Rightarrow> jstring list" where
  "exec_loop [] urls = urls"
| "exec_loop (c # cs) urls =
     (if startsWith (c # cs) (str ''<loc>'') then
        (case lazy_loc [] (drop 5 (c # cs)) of
           Some (cap, rest) \<Rightarrow> exec_loop rest (urls @ [cap])
         | None \<Rightarrow> exec_loop cs urls)
      else exec_loop cs urls)"
  by pat_completeness auto
termination
  by (relation "measure (\<lambda>(s, urls). length s)")
     (auto dest!: lazy_loc_length simp: less_Suc_eq_le intro: le_trans diff_le_self order.strict_implies_order)

definition parseSitemap :: "jstring \<Rightarrow> jstring list" where
  "parseSitemap xml = exec_loop xml []"

subsection \<open>Text extractor\<close>

fun is_word_char :: "code_unit \<Rightarrow> bool" where
  "is_word_char (Latin c) =
     (let n = of_char c :: nat
      in (65 \<le> n \<and> n \<le> 90) \<or> (97 \<le> n \<and> n \<le> 122) \<or> (48 \<le> n \<and> n \<le> 57) \<or> n = 95)"
| "is_word_char u = False"

fun is_space :: "code_unit \<Rightarrow> bool" where
  "is_space (Latin c) = (c \<in> set [CHR 0x09, CHR 0x0A, CHR 0x0B, CHR 0x0C, CHR 0x0D, CHR 0x20, CHR 0xA0])"
| "is_space LineSeparator = True"
| "is_space ParagraphSeparator = True"

text \<open>
  Matching a literal under the \<open>i\<close> flag: the input starts with \<open>p\<close> up to the case of
  its letters.
\<close>

definition ci_startsWith :: "jstring \<Rightarrow> jstring \<Rightarrow> bool" where
  "ci_startsWith s p = (length p \<le> length s \<and> toLowerCase (take (length p) s) = toLowerCase p)"

text \<open>\<open>word_boundary r\<close> is \<open>\b\<close> after a word character, in front of the input \<open>r\<close>.\<close>

definition word_boundary :: "jstring \<Rightarrow> bool" where
  "word_boundary r = (case r of [] \<Rightarrow> True | d # ds \<Rightarrow> \<not> is_word_char d)"

text \<open>
  \<open>block_close tag r\<close> runs \<open>[^<]*(?:(?!<\/tag>)<[^<]*)*<\/tag>\<close> on \<open>r\<close>: a character
  other than \<open><\<close> is taken by the current \<open>[^<]*\<close>; at a \<open><\<close> the look-ahead decides
  between the closing tag, which ends the match, and one more round of the group.  The greedy
  stars never give characters back with success, since what follows them must start with
  \<open><\<close>.  The result is the input after the match.
\<close>

fun block_close :: "jstring \<Rightarrow> jstring \<Rightarrow> jstring option" where
  "block_close tag [] = None"
| "block_close tag (c # cs) =
     (if c \<noteq> Latin (CHR ''<'') then block_close tag cs
      else if ci_startsWith (c # cs) (str ''</'' @ tag @ str ''>'') then Some (drop (length tag + 3) (c # cs))
      else block_close tag cs)"

lemma block_close_length: "block_close tag r = Some rest \<Longrightarrow> length rest \<le> length r"
  by (induction tag r rule: block_close.induct) (auto split: if_splits)

text \<open>
  \<open>remove_blocks tag s\<close> is \<open>s.replace(/<tag\b[^<]*(?:(?!<\/tag>)<[^<]*)*<\/tag>/gi, '')\<close>:
  the pattern is tried at every position from left to right, a match is dropped and the
  scan goes on behind it.
\<close>

function remove_blocks :: "jstring \<Rightarrow> jstring \<Rightarrow> jstring" where
  "remove_blocks tag [] = []"
| "remove_blocks tag (c # cs) =
     (if ci_startsWith (c # cs) (str ''<'' @ tag) \<and> word_boundary (drop (length tag + 1) (c # cs)) then
        (case block_close tag (drop (length tag + 1) (c # cs)) of
           Some rest \<Rightarrow> remove_blocks tag rest
         | None \<Rightarrow> c # remove_blocks tag cs)
      else c # remove_blocks tag cs)"
  by pat_completeness auto
termination
  by (relation "measure (\<lambda>(tag, s). length s)")
     (auto dest!: block_close_length simp: less_Suc_eq_le intro: le_trans diff_le_self)

text \<open>\<open>tag_close r\<close> is the tail \<open>[^>]*>\<close> of \<open><[^>]+>\<close>, behind the first character of the tag.\<close>

fun tag_close :: "jstring \<Rightarrow> jstring option" where
  "tag_close [] = None"
| "tag_close (c # cs) = (if c = Latin (CHR ''>'') then Some cs else tag_close cs)"

lemma tag_close_length: "tag_close r = Some rest \<Longrightarrow> length rest < length r"
  by (induction r) (auto split: if_splits)

text \<open>\<open>strip_tags s\<close> is \<open>s.replace(/<[^>]+>/g, ' ')\<close>.\<close>

function strip_tags :: "jstring \<Rightarrow> jstring" where
  "strip_tags [] = []"
| "strip_tags (c # cs) =
     (if c = Latin (CHR ''<'') then
        (case cs of
           [] \<Rightarrow> c # strip_tags cs
         | d # ds \<Rightarrow>
             if d = Latin (CHR ''>'') then c # strip_tags cs
             else (case tag_close ds of
                     Some rest \<Rightarrow> Latin (CHR '' '') # strip_tags rest
                   | None \<Rightarrow> c # strip_tags cs))
      else c # strip_tags cs)"
  by pat_completeness auto
termination
  by (relation "measure length") (auto dest!: tag_close_length)

text \<open>\<open>replace_all pat rep s\<close> is \<open>s.replace(/pat/g, rep)\<close> for a literal, non-empty \<open>pat\<close>.\<close>

function replace_all :: "jstring \<Rightarrow> jstring \<Rightarrow> jstring \<Rightarrow> jstring" where
  "replace_all pat rep [] = []"
| "replace_all pat rep (c # cs) =
     (if pat \<noteq> [] \<and> startsWith (c # cs) pat
      then rep @ replace_all pat rep (drop (length pat) (c # cs))
      else c # replace_all pat rep cs)"
  by pat_completeness auto
termination
  by (relation "measure (\<lambda>(pat, rep, s). length s)") (auto simp: neq_Nil_conv)

text \<open>\<open>collapse_ws s\<close> is \<open>s.replace(/\s+/g, ' ')\<close>.\<close>

function collapse_ws :: "jstring \<Rightarrow> jstring" where
  "collapse_ws [] = []"
| "collapse_ws (c # cs) =
     (if is_space c then Latin (CHR '' '') # collapse_ws (dropWhile is_space cs)
      else c # collapse_ws cs)"
  by pat_completeness auto
termination
  by (relation "measure length") (auto simp: less_Suc_eq_le length_dropWhile_le)

definition trim :: "jstring \<Rightarrow> jstring" where
  "trim s = rev (dropWhile is_space (rev (dropWhile is_space s)))"

definition extractTextFromHtml :: "jstring \<Rightarrow> jstring" where
  "extractTextFromHtml html =
     (let text = remove_blocks (str ''script'') html;
          text = remove_blocks (str ''style'') text;
          text = strip_tags text;
          text = replace_all (str ''&nbsp;'') (str '' '') text;
          text = replace_all (str ''&amp;'') (str ''&'') text;
          text = replace_all (str ''&lt;'') (str ''<'') text;
          text = replace_all (str ''&gt;'') (str ''>'') text;
          text = replace_all (str ''&quot;'') [Latin (CHR 0x22)] text;
          text = replace_all (str ''&#39;'') [Latin (CHR 0x27)] text;
          text = trim (collapse_ws text)
      in text)"

subsection \<open>Handlers\<close>

text \<open>
  A handler body either returns an envelope or throws; \<open>catch_all\<close> is the \<open>catch\<close>
  block every handler ends with.
\<close>

definition catch_all :: "jstring + envelope \<Rightarrow> envelope" where
  "catch_all r = (case r of Inl errorMessage \<Rightarrow> error_envelope (str ''Error: '' @ errorMessage) | Inr e \<Rightarrow> e)"

definition unknown_site :: "site \<Rightarrow> envelope" where
  "unknown_site s =
     error_envelope (str ''Error: Unknown site '' @ [Latin (CHR 0x22)] @ site_key s @ [Latin (CHR 0x22)]
       @ str ''. Valid sites are: '' @ VALID_SITES)"

definition plural :: "nat \<Rightarrow> jstring" where
  "plural n = (if n = 1 then [] else str ''s'')"

definition search_matches :: "jstring list \<Rightarrow> jstring \<Rightarrow> bool \<Rightarrow> jstring list" where
  "search_matches urls pattern caseInsensitive =
     (let searchPattern = (if caseInsensitive then toLowerCase pattern else pattern)
      in filter (\<lambda>url.
           let searchUrl = (if caseInsensitive then toLowerCase url else url)
           in str_includes searchUrl searchPattern) urls)"

definition search_events :: "(jstring \<Rightarrow> fetch_outcome) \<Rightarrow> site \<Rightarrow> jstring \<Rightarrow> bool \<Rightarrow> envelope" where
  "search_events net s pattern caseInsensitive = catch_all
     (case EVENT_SITES s of
        None \<Rightarrow> Inr (unknown_site s)
      | Some eventSite \<Rightarrow>
          (let sitemapUrl = baseUrl eventSite @ sitemapPath eventSite
           in case fetchContent net sitemapUrl of
                Inl e \<Rightarrow> Inl e
              | Inr sitemapXml \<Rightarrow>
                  (let urls = parseSitemap sitemapXml;
                       matches = search_matches urls pattern caseInsensitive
                   in if length matches = 0 then
                        Inr (ok_envelope (str ''No URLs found matching pattern '' @ [Latin (CHR 0x22)] @ pattern
                          @ [Latin (CHR 0x22)] @ str '' in the '' @ name eventSite @ str '' sitemap.''))
                      else
                        Inr (ok_envelope (str ''Found '' @ show_nat (length matches) @ str '' URL''
                          @ plural (length matches) @ str '' matching '' @ [Latin (CHR 0x22)] @ pattern
                          @ [Latin (CHR 0x22)] @ str '' in '' @ name eventSite @ str '':'' @ [LF, LF]
                          @ join matches [LF])))))"

text \<open>
  \<open>slice0 xs n\<close> is \<open>xs.slice(0, n)\<close> for an integer \<open>n\<close>: a negative end counts from
  the end of the array.
\<close>

definition slice0 :: "'a list \<Rightarrow> int \<Rightarrow> 'a list" where
  "slice0 xs n = (if n < 0 then take (nat (int (length xs) + n)) xs else take (nat n) xs)"

text \<open>
  \<open>limit\<close> is the number the caller passes, here an integer (the declared shape is
  \<open>z.number()\<close> with default 50; the claims about it speak of counts).
\<close>

definition list_all_events :: "(jstring \<Rightarrow> fetch_outcome) \<Rightarrow> site \<Rightarrow> int \<Rightarrow> envelope" where
  "list_all_events net s limit = catch_all
     (case EVENT_SITES s of
        None \<Rightarrow> Inr (unknown_site s)
      | Some eventSite \<Rightarrow>
          (let sitemapUrl = baseUrl eventSite @ sitemapPath eventSite
           in case fetchContent net sitemapUrl of
                Inl e \<Rightarrow> Inl e
              | Inr sitemapXml \<Rightarrow>
                  (let urls = parseSitemap sitemapXml;
                       limitedUrls = (if limit > 0 then slice0 urls limit else urls);
                       hasMore = (limit > 0 \<and> int (length urls) > limit)
                   in Inr (ok_envelope (name eventSite @ str '' - Found '' @ show_nat (length urls)
                        @ str '' total URLs''
                        @ (if hasMore then str '' (showing first '' @ show_int limit @ str '')'' else [])
                        @ str '':'' @ [LF, LF] @ join limitedUrls [LF]
                        @ (if hasMore then [LF, LF] @ str ''... and '' @ show_int (int (length urls) - limit)
                             @ str '' more'' else []))))))"

section \<open>The design-standards server\<close>

subsection \<open>Values of the design-token document\<close>

text \<open>
  The document is what \<open>JSON.parse\<close> returns.  A number is kept as its rendering
  \<open>String(n)\<close>: the code looks at numbers only through \<open>typeof\<close>, truthiness and
  conversion to a string, and zero (of either sign) is the one number rendered \<open>0\<close>.
  \<open>JObj kvs\<close> holds the members of an object as the document declares them, in that
  order; \<open>own_entries\<close> below gives the order in which the platform enumerates them.
  \<open>undefined\<close> is not a JSON value: a value that may be undefined is a \<open>json option\<close>,
  \<open>None\<close> being \<open>undefined\<close>.
\<close>

datatype json =
  JNull
| JBool bool
| JNum jstring
| JStr jstring
| JArr "json list"
| JObj "(jstring \<times> json) list"

datatype js_type = TUndefined | TObject | TBoolean | TNumber | TString

fun typeof :: "json option \<Rightarrow> js_type" where
  "typeof None = TUndefined"
| "typeof (Some JNull) = TObject"
| "typeof (Some (JBool b)) = TBoolean"
| "typeof (Some (JNum n)) = TNumber"
| "typeof (Some (JStr s)) = TString"
| "typeof (Some (JArr vs)) = TObject"
| "typeof (Some (JObj kvs)) = TObject"


text \<open>
  An array index is the canonical decimal rendering of an integer from 0 to \<open>2^32 - 2\<close>.
\<close>

fun is_digit :: "code_unit \<Rightarrow> bool" where
  "is_digit (Latin c) = (48 \<le> (of_char c :: int) \<and> (of_char c :: int) \<le> 57)"
| "is_digit u = False"

fun digit_value :: "code_unit \<Rightarrow> int" where
  "digit_value (Latin c) = of_char c - 48"
| "digit_value u = 0"

definition index_value :: "jstring \<Rightarrow> int" where
  "index_value k = foldl (\<lambda>n u. 10 * n + digit_value u) 0 k"

definition is_array_index :: "jstring \<Rightarrow> bool" where
  "is_array_index k =
     (k \<noteq> [] \<and> list_all is_digit k \<and> (length k = 1 \<or> hd k \<noteq> Latin (CHR ''0''))
      \<and> index_value k < 4294967295)"

text \<open>
  The properties of the object that \<open>JSON.parse\<close> builds from the members: a member
  whose key was seen before overwrites the value and keeps the place of the first one.
\<close>

fun set_prop :: "(jstring \<times> 'v) list \<Rightarrow> jstring \<Rightarrow> 'v \<Rightarrow> (jstring \<times> 'v) list" where
  "set_prop [] k v = [(k, v)]"
| "set_prop ((k', v') # ps) k v =
     (if k' = k then (k', v) # ps else (k', v') # set_prop ps k v)"

definition properties :: "(jstring \<times> 'v) list \<Rightarrow> (jstring \<times> 'v) list" where
  "properties kvs = foldl (\<lambda>ps (k, v). set_prop ps k v) [] kvs"

text \<open>
  The order of the own property keys of an object: the array indices in ascending numeric
  order first, then the other keys in the order of their creation.
\<close>

fun insert_index :: "(jstring \<times> 'v) \<Rightarrow> (jstring \<times> 'v) list \<Rightarrow> (jstring \<times> 'v) list" where
  "insert_index e [] = [e]"
| "insert_index e (x # xs) =
     (if index_value (fst e) \<le> index_value (fst x) then e # x # xs else x # insert_index e xs)"

definition entry_order :: "(jstring \<times> 'v) list \<Rightarrow> (jstring \<times> 'v) list" where
  "entry_order ps =
     foldr insert_index (filter (\<lambda>(k, v). is_array_index k) ps) []
     @ filter (\<lambda>(k, v). \<not> is_array_index k) ps"

text \<open>
  The own enumerable string-keyed properties of a value that is not null, as
  \<open>Object.entries\<close> lists them: an array and a string have their indices as keys.
\<close>

fun own_entries :: "json \<Rightarrow> (jstring \<times> json) list" where
  "own_entries (JObj kvs) = entry_order (properties kvs)"
| "own_entries (JArr vs) = zip (map show_nat [0..<length vs]) vs"
| "own_entries (JStr s) = zip (map show_nat [0..<length s]) (map (\<lambda>c. JStr [c]) s)"
| "own_entries v = []"




text \<open>\<open>js_string\<close> is the conversion to a string that a template literal applies.\<close>

fun js_string :: "json \<Rightarrow> jstring" where
  "js_string JNull = str ''null''"
| "js_string (JBool b) = (if b then str ''true'' else str ''false'')"
| "js_string (JNum n) = n"
| "js_string (JStr s) = s"
| "js_string (JArr vs) = join (map (\<lambda>v. if v = JNull then [] else js_string v) vs) (str '','')"
| "js_string (JObj kvs) = str ''[object Object]''"


subsection \<open>Search\<close>

record match =
  path :: jstring
  key :: jstring
  val :: json

lemma sum_list_Suc: "sum_list (map (\<lambda>v. Suc (f v)) vs) = sum_list (map f vs) + length vs"
  by (induction vs) auto

definition entries_size :: "(jstring \<times> json) list \<Rightarrow> nat" where
  "entries_size es = sum_list (map (\<lambda>(k, v). Suc (size v)) es)"

lemma entries_size_zip:
  "length ks = length vs \<Longrightarrow> entries_size (zip ks vs) = sum_list (map (\<lambda>v. Suc (size v)) vs)"
  by (induction ks vs rule: list_induct2) (auto simp: entries_size_def)

lemma entries_size_set_prop: "entries_size (set_prop ps k v) \<le> entries_size ps + Suc (size v)"
  by (induction ps) (auto simp: entries_size_def)

lemma entries_size_properties_acc:
  "entries_size (foldl (\<lambda>ps (k, v). set_prop ps k v) ps kvs) \<le> entries_size ps + entries_size kvs"
proof (induction kvs arbitrary: ps)
  case Nil
  then show ?case by (simp add: entries_size_def)
next
  case (Cons e kvs)
  obtain k v where e: "e = (k, v)" by (cases e)
  have "entries_size (foldl (\<lambda>ps (k, v). set_prop ps k v) (set_prop ps k v) kvs)
      \<le> entries_size (set_prop ps k v) + entries_size kvs"
    by (rule Cons.IH)
  also have "\<dots> \<le> entries_size ps + Suc (size v) + entries_size kvs"
    using entries_size_set_prop [of ps k v] by simp
  finally show ?case by (simp add: e entries_size_def)
qed

lemma entries_size_insert_index:
  "entries_size (insert_index e xs) = entries_size [e] + entries_size xs"
  by (induction xs) (auto simp: entries_size_def)

lemma entries_size_sorted:
  "entries_size (foldr insert_index xs []) = entries_size xs"
proof (induction xs)
  case Nil
  then show ?case by simp
next
  case (Cons x xs)
  then show ?case
    using entries_size_insert_index [of x "foldr insert_index xs []"]
    by (simp add: entries_size_def)
qed

lemma entries_size_filter:
  "entries_size (filter P xs) + entries_size (filter (\<lambda>x. \<not> P x) xs) = entries_size xs"
  by (induction xs) (auto simp: entries_size_def)

lemma entries_size_append: "entries_size (xs @ ys) = entries_size xs + entries_size ys"
  by (simp add: entries_size_def)

lemma entries_size_entry_order: "entries_size (entry_order ps) = entries_size ps"
  using entries_size_filter [of "\<lambda>(k, v). is_array_index k" ps]
  by (simp add: entry_order_def entries_size_append entries_size_sorted case_prod_unfold)

lemma entries_size_own:
  "typeof (Some v) = TObject \<Longrightarrow> entries_size (own_entries v) < entries_size ((k, v) # rest)"
proof (cases v)
  case (JArr vs)
  then show ?thesis
    using entries_size_zip [of "map show_nat [0..<length vs]" vs]
    by (simp add: size_list_conv_sum_list comp_def sum_list_Suc entries_size_def)
next
  case (JObj kvs)
  have "entries_size kvs \<le> size_list (size_prod (\<lambda>_. 0) size) kvs"
    by (induction kvs) (auto simp: entries_size_def)
  moreover have "entries_size (properties kvs) \<le> entries_size kvs"
    using entries_size_properties_acc [of "[]" kvs]
    by (simp add: properties_def entries_size_def)
  then have "entries_size (entry_order (properties kvs)) \<le> entries_size kvs"
    by (simp only: entries_size_entry_order)
  ultimately show ?thesis using JObj by (simp add: entries_size_def)
qed (simp_all add: entries_size_def)

lemma entries_size_rest: "entries_size rest < entries_size ((k, v) # rest)"
  by (simp add: entries_size_def)

text \<open>
  The loop of \<open>searchObject(obj, path)\<close> over the entries of \<open>obj\<close>; \<open>results\<close> is the
  array the closure pushes to.
\<close>

function search_loop :: "bool \<Rightarrow> jstring \<Rightarrow> jstring list \<Rightarrow> (jstring \<times> json) list \<Rightarrow> match list \<Rightarrow> match list" where
  "search_loop caseSensitive searchTerm pth [] results = results"
| "search_loop caseSensitive searchTerm pth ((k, v) # rest) results =
     (let currentPath = pth @ [k];
          pathString = join currentPath (str ''.'');
          searchKey = (if caseSensitive then k else toLowerCase k);
          results1 =
            (if str_includes searchKey searchTerm \<or> str_includes (toLowerCase pathString) searchTerm
             then results @ [\<lparr>path = pathString, key = k, val = v\<rparr>] else results);
          results2 =
            (case v of
               JStr s \<Rightarrow>
                 (let searchValue = (if caseSensitive then s else toLowerCase s)
                  in if str_includes searchValue searchTerm
                     then results1 @ [\<lparr>path = pathString, key = k, val = v\<rparr>] else results1)
             | _ \<Rightarrow>
                 if typeof (Some v) = TObject \<and> v \<noteq> JNull
                 then search_loop caseSensitive searchTerm currentPath (own_entries v) results1
                 else results1)
      in search_loop caseSensitive searchTerm pth rest results2)"
  by pat_completeness auto
termination
  by (relation "measure (\<lambda>(cs, t, p, es, r). entries_size es)")
     (auto simp del: own_entries.simps simp: entries_size_own entries_size_rest)

definition searchObject :: "bool \<Rightarrow> jstring \<Rightarrow> json \<Rightarrow> jstring list \<Rightarrow> match list \<Rightarrow> match list" where
  "searchObject caseSensitive searchTerm obj pth results =
     search_loop caseSensitive searchTerm pth (own_entries obj) results"

text \<open>
  \<open>designStandards\<close> is the document loaded at start-up.  It is never \<open>null\<close> here: the
  module reads \<open>designStandards.brands\<close> while loading and does not start otherwise.
\<close>

definition searchDesignStandards :: "json \<Rightarrow> jstring \<Rightarrow> bool \<Rightarrow> match list" where
  "searchDesignStandards designStandards query caseSensitive =
     (let searchTerm = (if caseSensitive then query else toLowerCase query)
      in searchObject caseSensitive searchTerm designStandards [] [])"

subsection \<open>Declared parameter shapes\<close>












subsection \<open>Serialisation\<close>

text \<open>
  \<open>JSON.stringify(x, null, 2)\<close> is a function of the platform and a parameter
  \<open>stringify\<close> of the handlers.  They apply it to a value of the document, which may be
  undefined, or to the object literal \<open>{ [key]: value }\<close> whose one property may be
  undefined.
\<close>

datatype stringify_arg =
  Document_value "json option"
| Single_property jstring "json option"

subsection \<open>Lookups in the document\<close>





subsection \<open>CSS rendering\<close>

text \<open>The loop over the variables of one category.\<close>

fun declarations_loop :: "(jstring \<times> json) list \<Rightarrow> jstring \<Rightarrow> jstring" where
  "declarations_loop [] css = css"
| "declarations_loop ((k, v) # rest) css =
     declarations_loop rest (css @ str ''  '' @ k @ str '': '' @ js_string v @ str '';'' @ [LF])"






subsection \<open>Handlers of the design-token tools\<close>

definition quoted :: "jstring \<Rightarrow> jstring" where
  "quoted s = [Latin (CHR 0x22)] @ s @ [Latin (CHR 0x22)]"








text \<open>
  \<open>maxResults\<close> is an integer here (the declared shape is \<open>z.number()\<close> with default
  20); \<open>show_number\<close> is the platform's rendering of that number.
\<close>

definition search_design_standards ::
    "(stringify_arg \<Rightarrow> jstring) \<Rightarrow> (int \<Rightarrow> jstring) \<Rightarrow> json \<Rightarrow> jstring \<Rightarrow> bool \<Rightarrow> int \<Rightarrow> envelope" where
  "search_design_standards stringify show_number designStandards query caseSensitive maxResults = catch_all
     (let results = searchDesignStandards designStandards query caseSensitive;
          limitedResults = slice0 results maxResults;
          hasMore = (int (length results) > maxResults)
      in if length results = 0 then
           Inr (ok_envelope (str ''No results found for '' @ quoted query))
         else
           Inr (ok_envelope (str ''Found '' @ show_nat (length results) @ str '' result''
             @ plural (length results) @ str '' for '' @ quoted query
             @ (if hasMore then str '' (showing first '' @ show_number maxResults @ str '')'' else [])
             @ str '':'' @ [LF, LF]
             @ join (map (\<lambda>r. str ''Path: '' @ path r @ [LF] @ str ''Value: ''
                            @ (if typeof (Some (val r)) = TObject
                               then stringify (Document_value (Some (val r)))
                               else js_string (val r))) limitedResults)
                 ([LF, LF] @ str ''---'' @ [LF, LF]))))"


section \<open>Descriptions used by the properties\<close>

subsection \<open>Sitemap documents with their <loc> pairs\<close>

text \<open>
  The text of a document given by its \<open><loc>\<close> pairs: each pair is the text that comes
  before it (\<open>gap\<close>) and the text between its markers (\<open>loc\<close>); \<open>rest\<close> follows the
  last pair.
\<close>

definition sitemap_text :: "(jstring \<times> jstring) list \<Rightarrow> jstring \<Rightarrow> jstring" where
  "sitemap_text entries rest =
     concat (map (\<lambda>(gap, loc). gap @ str ''<loc>'' @ loc @ str ''</loc>'') entries) @ rest"

text \<open>The number of positions of a text at which the marker \<open><loc>\<close> starts.\<close>

fun count_open :: "jstring \<Rightarrow> nat" where
  "count_open [] = 0"
| "count_open (c # cs) = (if startsWith (c # cs) (str ''<loc>'') then 1 else 0) + count_open cs"

text \<open>A text is on one line when it holds no line terminator.\<close>

definition single_line :: "jstring \<Rightarrow> bool" where
  "single_line s = list_all (\<lambda>c. \<not> is_line_terminator c) s"

subsection \<open>Normalised white space\<close>

text \<open>
  Text whose white space is normalised: every white-space character is a space, and no
  space is followed by white space.
\<close>

fun normal_ws :: "jstring \<Rightarrow> bool" where
  "normal_ws [] = True"
| "normal_ws (c # cs) =
     ((is_space c \<longrightarrow> c = Latin (CHR '' '') \<and> (case cs of [] \<Rightarrow> True | d # ds \<Rightarrow> \<not> is_space d))
      \<and> normal_ws cs)"

subsection \<open>Markup left in a text\<close>

text \<open>
  \<open>has_tag s\<close>: somewhere in \<open>s\<close> the pattern \<open><[^>]+>\<close> matches, that is, a
  \<open><\<close> is followed by a character other than \<open>>\<close> and, later, by a \<open>>\<close>.
\<close>

fun has_tag :: "jstring \<Rightarrow> bool" where
  "has_tag [] = False"
| "has_tag (c # cs) =
     ((c = Latin (CHR ''<'')
        \<and> (case cs of [] \<Rightarrow> False | d # ds \<Rightarrow> d \<noteq> Latin (CHR ''>'') \<and> Latin (CHR ''>'') \<in> set ds))
      \<or> has_tag cs)"

text \<open>The six entity names that \<open>extractTextFromHtml\<close> decodes.\<close>

definition entity_names :: "jstring list" where
  "entity_names = [str ''&nbsp;'', str ''&amp;'', str ''&lt;'', str ''&gt;'', str ''&quot;'', str ''&#39;'']"

definition has_entity :: "jstring \<Rightarrow> bool" where
  "has_entity s = list_ex (str_includes s) entity_names"

subsection \<open>Depth-first listing of the document\<close>

text \<open>
  The nodes below a list of entries, depth first and in the order of the entries: each
  node with its path from the root, its key and its value; the nodes inside an object or
  an array follow the node itself.
\<close>

definition is_container :: "json \<Rightarrow> bool" where
  "is_container v = (typeof (Some v) = TObject \<and> v \<noteq> JNull)"

function nodes :: "jstring list \<Rightarrow> (jstring \<times> json) list \<Rightarrow> (jstring list \<times> jstring \<times> json) list" where
  "nodes pth [] = []"
| "nodes pth ((k, v) # rest) =
     (pth @ [k], k, v)
       # (if is_container v then nodes (pth @ [k]) (own_entries v) else [])
       @ nodes pth rest"
  by pat_completeness auto
termination
  by (relation "measure (\<lambda>(p, es). entries_size es)")
     (auto simp del: own_entries.simps simp: entries_size_own entries_size_rest is_container_def)

definition node_record :: "jstring list \<times> jstring \<times> json \<Rightarrow> match" where
  "node_record n = (case n of (p, k, v) \<Rightarrow> \<lparr>path = join p (str ''.''), key = k, val = v\<rparr>)"

text \<open>The two checks of a node against the (case-folded) search term.\<close>

definition key_path_check :: "bool \<Rightarrow> jstring \<Rightarrow> jstring list \<times> jstring \<times> json \<Rightarrow> bool" where
  "key_path_check caseSensitive searchTerm n =
     (case n of (p, k, v) \<Rightarrow>
        str_includes (if caseSensitive then k else toLowerCase k) searchTerm
        \<or> str_includes (toLowerCase (join p (str ''.''))) searchTerm)"

definition value_check :: "bool \<Rightarrow> jstring \<Rightarrow> jstring list \<times> jstring \<times> json \<Rightarrow> bool" where
  "value_check caseSensitive searchTerm n =
     (case n of (p, k, v) \<Rightarrow>
        (case v of
           JStr s \<Rightarrow> str_includes (if caseSensitive then s else toLowerCase s) searchTerm
         | _ \<Rightarrow> False))"

definition node_matches :: "bool \<Rightarrow> jstring \<Rightarrow> jstring list \<times> jstring \<times> json \<Rightarrow> match list" where
  "node_matches caseSensitive searchTerm n =
     (if key_path_check caseSensitive searchTerm n then [node_record n] else [])
     @ (if value_check caseSensitive searchTerm n then [node_record n] else [])"


subsection \<open>The shape of a generated stylesheet\<close>








subsection \<open>Example inputs\<close>

text \<open>A network that answers every request with a three-entry sitemap.\<close>

definition example_net :: "jstring \<Rightarrow> fetch_outcome" where
  "example_net url = Responded True 200 (Inr (str ''<loc>a</loc><loc>b</loc><loc>c</loc>''))"

text \<open>A network whose sitemap lists three pages, two of them about events.\<close>

definition example_events_net :: "jstring \<Rightarrow> fetch_outcome" where
  "example_events_net url = Responded True 200
     (Inr (str ''<loc>https://x.org/Events/ride</loc><loc>https://x.org/about</loc><loc>https://x.org/event/1</loc>''))"

definition example_tokens :: json where
  "example_tokens = JObj
     [(str ''brands'', JObj []),
      (str ''colors'', JObj [(str ''primary'', JStr (str ''#AB292C''))])]"


text \<open>A document that declares the shades of a colour in the order b, 10, a, 2.\<close>

definition example_shades :: json where
  "example_shades = JObj
     [(str ''brands'', JObj []),
      (str ''shades'', JObj
         [(str ''b'', JStr (str ''x1'')),
          (str ''10'', JStr (str ''x2'')),
          (str ''a'', JStr (str ''x3'')),
          (str ''2'', JStr (str ''x4''))])]"


definition example_standards :: json where
  "example_standards = JObj
     [(str ''brands'', JObj
        [(str ''pmc'', JObj
           [(str ''name'', JStr (str ''Pan-Mass Challenge'')),
            (str ''shortName'', JStr (str ''PMC'')),
            (str ''css'', JObj
               [(str ''colors'', JObj [(str ''--pmc-red'', JStr (str ''#AB292C''))]),
                (str ''fontFiles'', JObj [(str ''regular'', JStr (str ''pmc.woff2''))])])])]),
      (str ''cssRules'', JObj
        [(str ''buttons'', JObj
           [(str ''css'', JStr (str ''padding: 8px 16px;'')),
            (str ''hover'', JObj [(str ''css'', JStr (str ''opacity: 0.9;''))])]),
         (str ''cards'', JObj [(str ''css'', JStr (str ''border-radius: 8px;''))]),
         (str ''modals'', JObj [(str ''overlay'', JObj [(str ''css'', JStr (str ''z-index: 10;''))])])]),
      (str ''usage'', JObj [(str ''colors'', JStr (str ''Use red for primary actions.''))])]"

text \<open>A stand-in for the serialiser, enough to tell its arguments apart.\<close>

fun example_stringify :: "stringify_arg \<Rightarrow> jstring" where
  "example_stringify (Single_property k None) = str ''{}''"
| "example_stringify (Single_property k (Some v)) = str ''{...}''"
| "example_stringify (Document_value None) = str ''undefined''"
| "example_stringify (Document_value (Some v)) = str ''...''"

section \<open>Properties of the event-site server\<close>

lemma str_includes_iff: "str_includes s t \<longleftrightarrow> (\<exists>pre post. s = pre @ t @ post)"
proof (induction s)
  case Nil
  then show ?case by auto
next
  case (Cons c cs)
  show ?case
  proof
    assume "str_includes (c # cs) t"
    then consider "startsWith (c # cs) t" | "str_includes cs t" by auto
    then show "\<exists>pre post. c # cs = pre @ t @ post"
    proof cases
      case 1
      then have "c # cs = [] @ t @ drop (length t) (c # cs)"
        unfolding startsWith_def by (metis append_Nil append_take_drop_id)
      then show ?thesis by blast
    next
      case 2
      with Cons obtain pre post where "cs = pre @ t @ post" by blast
      then have "c # cs = (c # pre) @ t @ post" by simp
      then show ?thesis by blast
    qed
  next
    assume "\<exists>pre post. c # cs = pre @ t @ post"
    then obtain pre post where eq: "c # cs = pre @ t @ post" by blast
    show "str_includes (c # cs) t"
    proof (cases pre)
      case Nil
      with eq have "startsWith (c # cs) t" by (simp add: startsWith_def)
      then show ?thesis by simp
    next
      case (Cons p ps)
      with eq have "cs = ps @ t @ post" by simp
      with Cons.IH show ?thesis by auto
    qed
  qed
qed

lemma show_int_nat: "show_int (int n) = show_nat n"
  by (simp add: show_int_def)

lemma show_int_diff: "k \<le> n \<Longrightarrow> show_int (int n - int k) = show_nat (n - k)"
proof -
  assume "k \<le> n"
  then have "int n - int k = int (n - k)" by simp
  then show ?thesis by (simp only: show_int_nat)
qed

lemma list_all_events_ok:
  assumes "EVENT_SITES s = Some es" and "fetchContent net (baseUrl es @ sitemapPath es) = Inr xml"
  shows "list_all_events net s limit =
    (let urls = parseSitemap xml;
         hasMore = (limit > 0 \<and> int (length urls) > limit)
     in ok_envelope (name es @ str '' - Found '' @ show_nat (length urls) @ str '' total URLs''
          @ (if hasMore then str '' (showing first '' @ show_int limit @ str '')'' else [])
          @ str '':'' @ [LF, LF] @ join (if limit > 0 then slice0 urls limit else urls) [LF]
          @ (if hasMore then [LF, LF] @ str ''... and '' @ show_int (int (length urls) - limit)
               @ str '' more'' else [])))"
  using assms by (simp add: list_all_events_def catch_all_def Let_def)

text \<open>
  Claim C4.  When the sitemap was fetched and parsed into \<open>urls\<close> of length \<open>T\<close>,
  \<open>list_all_events\<close> with limit 0 lists every URL with no notice; with a limit \<open>k\<close>,
  \<open>0 < k < T\<close>, it lists exactly the first \<open>k\<close> URLs in sitemap order, says
  "showing first k" and reports \<open>T - k\<close> more; with \<open>k \<ge> T\<close> it lists every URL
  with no notice.
\<close>

theorem list_all_events_limit:
  assumes "EVENT_SITES s = Some es"
    and "fetchContent net (baseUrl es @ sitemapPath es) = Inr xml"
    and "urls = parseSitemap xml"
  shows "list_all_events net s 0 =
           ok_envelope (name es @ str '' - Found '' @ show_nat (length urls) @ str '' total URLs:''
             @ [LF, LF] @ join urls [LF])
       \<and> (0 < k \<and> k < length urls \<longrightarrow>
           list_all_events net s (int k) =
             ok_envelope (name es @ str '' - Found '' @ show_nat (length urls) @ str '' total URLs''
               @ str '' (showing first '' @ show_nat k @ str '')'' @ str '':'' @ [LF, LF]
               @ join (take k urls) [LF]
               @ [LF, LF] @ str ''... and '' @ show_nat (length urls - k) @ str '' more''))
       \<and> (length urls \<le> k \<longrightarrow>
           list_all_events net s (int k) =
             ok_envelope (name es @ str '' - Found '' @ show_nat (length urls) @ str '' total URLs:''
               @ [LF, LF] @ join urls [LF]))"
proof (intro conjI impI)
  show "list_all_events net s 0 =
           ok_envelope (name es @ str '' - Found '' @ show_nat (length urls) @ str '' total URLs:''
             @ [LF, LF] @ join urls [LF])"
    using list_all_events_ok [OF assms(1,2), of 0] assms(3) by (simp add: Let_def)
next
  assume k: "0 < k \<and> k < length urls"
  then show "list_all_events net s (int k) =
             ok_envelope (name es @ str '' - Found '' @ show_nat (length urls) @ str '' total URLs''
               @ str '' (showing first '' @ show_nat k @ str '')'' @ str '':'' @ [LF, LF]
               @ join (take k urls) [LF]
               @ [LF, LF] @ str ''... and '' @ show_nat (length urls - k) @ str '' more'')"
    using list_all_events_ok [OF assms(1,2), of "int k"] assms(3)
    by (simp add: Let_def slice0_def show_int_nat show_int_diff)
next
  assume k: "length urls \<le> k"
  then show "list_all_events net s (int k) =
             ok_envelope (name es @ str '' - Found '' @ show_nat (length urls) @ str '' total URLs:''
               @ [LF, LF] @ join urls [LF])"
    using list_all_events_ok [OF assms(1,2), of "int k"] assms(3)
    by (simp add: Let_def slice0_def)
qed

lemma ex_parse: "parseSitemap (str ''<loc>a</loc><loc>b</loc><loc>c</loc>'') = [str ''a'', str ''b'', str ''c'']"
  by code_simp

text \<open>
  Claim C10.  Every limit less than or equal to zero is unlimited: all sitemap URLs are
  listed, and neither the "showing first" nor the "... and n more" notice is produced.
\<close>

theorem list_all_events_negative_limit:
  assumes "EVENT_SITES s = Some es"
    and "fetchContent net (baseUrl es @ sitemapPath es) = Inr xml"
    and "limit \<le> 0"
  shows "list_all_events net s limit =
           ok_envelope (name es @ str '' - Found '' @ show_nat (length (parseSitemap xml)) @ str '' total URLs:''
             @ [LF, LF] @ join (parseSitemap xml) [LF])"
  using list_all_events_ok [OF assms(1,2), of limit] assms(3) by (simp add: Let_def)

lemma example_fetch:
  "fetchContent example_net u = Inr (str ''<loc>a</loc><loc>b</loc><loc>c</loc>'')"
  by (simp add: fetchContent_def example_net_def)

lemma show_nat_digit: "n < 10 \<Longrightarrow> show_nat n = [digit_char n]"
  by (simp add: show_nat.simps)

theorem list_all_events_limit_witness:
  "list_all_events example_net Pmc 0 =
     ok_envelope (str ''Pan-Mass Challenge - Found 3 total URLs:'' @ [LF, LF] @ str ''a'' @ [LF] @ str ''b'' @ [LF] @ str ''c'')
   \<and> list_all_events example_net Pmc 2 =
     ok_envelope (str ''Pan-Mass Challenge - Found 3 total URLs (showing first 2):'' @ [LF, LF]
       @ str ''a'' @ [LF] @ str ''b'' @ [LF, LF] @ str ''... and 1 more'')
   \<and> list_all_events example_net Pmc 3 =
     ok_envelope (str ''Pan-Mass Challenge - Found 3 total URLs:'' @ [LF, LF] @ str ''a'' @ [LF] @ str ''b'' @ [LF] @ str ''c'')"
proof -
  have site: "EVENT_SITES Pmc = Some \<lparr>name = str ''Pan-Mass Challenge'', baseUrl = str ''https://www.pmc.org'',
      sitemapPath = str ''/sitemap.xml''\<rparr>" by simp
  have urls: "[str ''a'', str ''b'', str ''c''] = parseSitemap (str ''<loc>a</loc><loc>b</loc><loc>c</loc>'')"
    by code_simp
  have d: "show_nat (Suc 0) = str ''1''" "show_nat 2 = str ''2''" "show_nat (Suc (Suc (Suc 0))) = str ''3''"
    by code_simp+
  note t = list_all_events_limit [OF site example_fetch urls]
  from t [of 2] t [of 3] d show ?thesis
    by simp
qed

theorem list_all_events_negative_limit_witness:
  "list_all_events example_net Pmc (- 7) =
     ok_envelope (str ''Pan-Mass Challenge - Found 3 total URLs:'' @ [LF, LF] @ str ''a'' @ [LF] @ str ''b'' @ [LF] @ str ''c'')"
proof -
  have site: "EVENT_SITES Pmc = Some \<lparr>name = str ''Pan-Mass Challenge'', baseUrl = str ''https://www.pmc.org'',
      sitemapPath = str ''/sitemap.xml''\<rparr>" by simp
  have neg: "(- 7 :: int) \<le> 0" by simp
  have d: "show_nat (Suc (Suc (Suc 0))) = str ''3''"
    by code_simp
  from list_all_events_negative_limit [OF site example_fetch neg] ex_parse d show ?thesis
    by simp
qed

lemma toLowerCase_append: "toLowerCase (a @ b) = toLowerCase a @ toLowerCase b"
  by (simp add: toLowerCase_def)

text \<open>
  Claim C7.  When the sitemap was fetched, \<open>search_events\<close> answers with exactly the
  URLs of the sitemap that contain the pattern as a plain substring, URL and pattern both
  lower-cased first when \<open>caseInsensitive\<close> is set, in sitemap order: it says that none
  was found when there is none, and otherwise gives their number and lists them.  So a
  case-insensitive search for "EVENT" keeps every URL containing "event".
\<close>

theorem search_events_substring:
  assumes "EVENT_SITES s = Some es"
    and "fetchContent net (baseUrl es @ sitemapPath es) = Inr xml"
    and "matches = filter (\<lambda>url. \<exists>pre post.
        (if caseInsensitive then toLowerCase url else url) =
          pre @ (if caseInsensitive then toLowerCase pattern else pattern) @ post) (parseSitemap xml)"
  shows "search_events net s pattern caseInsensitive =
      ok_envelope
        (if matches = [] then
           str ''No URLs found matching pattern '' @ quoted pattern @ str '' in the '' @ name es
             @ str '' sitemap.''
         else
           str ''Found '' @ show_nat (length matches) @ str '' URL'' @ plural (length matches)
             @ str '' matching '' @ quoted pattern @ str '' in '' @ name es @ str '':'' @ [LF, LF]
             @ join matches [LF])
    \<and> (caseInsensitive \<and> pattern = str ''EVENT'' \<and> url \<in> set (parseSitemap xml)
          \<and> url = a @ str ''event'' @ b \<longrightarrow> url \<in> set matches)"
proof
  have m: "matches = search_matches (parseSitemap xml) pattern caseInsensitive"
    unfolding assms(3) by (simp add: search_matches_def Let_def str_includes_iff)
  show "search_events net s pattern caseInsensitive =
      ok_envelope
        (if matches = [] then
           str ''No URLs found matching pattern '' @ quoted pattern @ str '' in the '' @ name es
             @ str '' sitemap.''
         else
           str ''Found '' @ show_nat (length matches) @ str '' URL'' @ plural (length matches)
             @ str '' matching '' @ quoted pattern @ str '' in '' @ name es @ str '':'' @ [LF, LF]
             @ join matches [LF])"
    using assms(1,2) unfolding m
    by (simp add: search_events_def catch_all_def Let_def quoted_def)
next
  have low: "toLowerCase (str ''EVENT'') = str ''event''" "toLowerCase (str ''event'') = str ''event''"
    by code_simp+
  show "caseInsensitive \<and> pattern = str ''EVENT'' \<and> url \<in> set (parseSitemap xml)
          \<and> url = a @ str ''event'' @ b \<longrightarrow> url \<in> set matches"
  proof
    assume h: "caseInsensitive \<and> pattern = str ''EVENT'' \<and> url \<in> set (parseSitemap xml)
          \<and> url = a @ str ''event'' @ b"
    then have "toLowerCase url = toLowerCase a @ toLowerCase (str ''event'') @ toLowerCase b"
      by (simp only: toLowerCase_append)
    then have "toLowerCase url = toLowerCase a @ toLowerCase pattern @ toLowerCase b"
      using h low by simp
    then have e: "\<exists>pre post. toLowerCase url = pre @ toLowerCase pattern @ post" by blast
    from h have u: "url \<in> set (parseSitemap xml)" and ci: caseInsensitive by blast+
    from e u ci show "url \<in> set matches" unfolding assms(3) by simp
  qed
qed

theorem search_events_substring_witness:
  "search_events example_events_net Pmc (str ''EVENT'') True =
     ok_envelope (str ''Found 2 URLs matching '' @ quoted (str ''EVENT'') @ str '' in Pan-Mass Challenge:''
       @ [LF, LF] @ str ''https://x.org/Events/ride'' @ [LF] @ str ''https://x.org/event/1'')
   \<and> str ''https://x.org/event/1'' \<in> set
       (filter (\<lambda>url. \<exists>pre post. toLowerCase url = pre @ toLowerCase (str ''EVENT'') @ post)
          (parseSitemap (str ''<loc>https://x.org/Events/ride</loc><loc>https://x.org/about</loc><loc>https://x.org/event/1</loc>'')))"
proof -
  let ?xml = "str ''<loc>https://x.org/Events/ride</loc><loc>https://x.org/about</loc><loc>https://x.org/event/1</loc>''"
  let ?es = "\<lparr>name = str ''Pan-Mass Challenge'', baseUrl = str ''https://www.pmc.org'',
      sitemapPath = str ''/sitemap.xml''\<rparr>"
  define matches where "matches = filter (\<lambda>url. \<exists>pre post.
        (if True then toLowerCase url else url) =
          pre @ (if True then toLowerCase (str ''EVENT'') else str ''EVENT'') @ post) (parseSitemap ?xml)"
  have site: "EVENT_SITES Pmc = Some ?es" by simp
  have f: "fetchContent example_events_net (baseUrl ?es @ sitemapPath ?es) = Inr ?xml"
    by (simp add: fetchContent_def example_events_net_def)
  have m: "matches = [str ''https://x.org/Events/ride'', str ''https://x.org/event/1'']"
    unfolding matches_def str_includes_iff [symmetric] by code_simp
  have p: "parseSitemap ?xml
      = [str ''https://x.org/Events/ride'', str ''https://x.org/about'', str ''https://x.org/event/1'']"
    by code_simp
  have d: "show_nat (Suc (Suc 0)) = str ''2''" "plural (Suc (Suc 0)) = str ''s''"
    by code_simp+
  have h: "True \<and> str ''EVENT'' = str ''EVENT'' \<and> str ''https://x.org/event/1'' \<in> set (parseSitemap ?xml)
      \<and> str ''https://x.org/event/1'' = str ''https://x.org/'' @ str ''event'' @ str ''/1''"
    unfolding p by simp
  note t = search_events_substring [OF site f matches_def,
      of "str ''https://x.org/event/1''" "str ''https://x.org/''" "str ''/1''"]
  from t h have "str ''https://x.org/event/1'' \<in> set matches" by blast
  then have "str ''https://x.org/event/1'' \<in> set
       (filter (\<lambda>url. \<exists>pre post. toLowerCase url = pre @ toLowerCase (str ''EVENT'') @ post)
          (parseSitemap ?xml))"
    unfolding matches_def by simp
  moreover from t have "search_events example_events_net Pmc (str ''EVENT'') True =
     ok_envelope (str ''Found 2 URLs matching '' @ quoted (str ''EVENT'') @ str '' in Pan-Mass Challenge:''
       @ [LF, LF] @ str ''https://x.org/Events/ride'' @ [LF] @ str ''https://x.org/event/1'')"
    using d unfolding m by simp
  ultimately show ?thesis by blast
qed

lemma short_list_disj:
  "g = [] \<or> (\<exists>a. g = [a]) \<or> (\<exists>a b. g = [a, b]) \<or> (\<exists>a b c. g = [a, b, c])
    \<or> (\<exists>a b c d. g = [a, b, c, d]) \<or> (\<exists>a b c d e. g = [a, b, c, d, e])
    \<or> (\<exists>a b c d e f r. g = a # b # c # d # e # f # r)"
proof (cases g)
  case Nil
  then show ?thesis by simp
next
  case c1: (Cons a g1)
  show ?thesis
  proof (cases g1)
    case Nil
    with c1 show ?thesis by simp
  next
    case c2: (Cons b g2)
    show ?thesis
    proof (cases g2)
      case Nil
      with c1 c2 show ?thesis by simp
    next
      case c3: (Cons c g3)
      show ?thesis
      proof (cases g3)
        case Nil
        with c1 c2 c3 show ?thesis by simp
      next
        case c4: (Cons d g4)
        show ?thesis
        proof (cases g4)
          case Nil
          with c1 c2 c3 c4 show ?thesis by simp
        next
          case c5: (Cons e g5)
          show ?thesis
          proof (cases g5)
            case Nil
            with c1 c2 c3 c4 c5 show ?thesis by simp
          next
            case (Cons f r)
            with c1 c2 c3 c4 c5 show ?thesis by simp
          qed
        qed
      qed
    qed
  qed
qed

lemma open_no_straddle:
  assumes "g \<noteq> []" and "\<not> startsWith g (str ''<loc>'')"
  shows "\<not> startsWith (g @ str ''<loc>'' @ r) (str ''<loc>'')"
  using assms short_list_disj [of g] by (auto simp: startsWith_def)

lemma close_no_straddle:
  assumes "g \<noteq> []" and "\<not> startsWith g (str ''</loc>'')"
  shows "\<not> startsWith (g @ str ''</loc>'' @ r) (str ''</loc>'')"
  using assms short_list_disj [of g] by (auto simp: startsWith_def)

lemma open_close_no_straddle:
  assumes "g \<noteq> []" and "\<not> startsWith g (str ''<loc>'')"
  shows "\<not> startsWith (g @ str ''</loc>'' @ r) (str ''<loc>'')"
  using assms short_list_disj [of g] by (auto simp: startsWith_def)

lemma startsWith_drop_includes:
  "i < length s \<Longrightarrow> startsWith (drop i s) t \<Longrightarrow> str_includes s t"
proof (induction s arbitrary: i)
  case Nil
  then show ?case by simp
next
  case (Cons c cs)
  show ?case
  proof (cases i)
    case 0
    with Cons.prems show ?thesis by simp
  next
    case (Suc m)
    show ?thesis
    proof (cases "m < length cs")
      case True
      with Cons Suc show ?thesis by simp
    next
      case False
      with Cons.prems Suc have "t = []" by (simp add: startsWith_def)
      then show ?thesis by (simp add: startsWith_def)
    qed
  qed
qed

text \<open>The scan passes over a stretch of text in which no \<open><loc>\<close> starts.\<close>

lemma exec_loop_skip:
  "\<forall>i < length a. \<not> startsWith (drop i (a @ b)) (str ''<loc>'') \<Longrightarrow>
     exec_loop (a @ b) urls = exec_loop b urls"
proof (induction a)
  case Nil
  then show ?case by simp
next
  case (Cons c cs)
  from Cons.prems have "\<not> startsWith (drop 0 ((c # cs) @ b)) (str ''<loc>'')" by blast
  then have step: "exec_loop ((c # cs) @ b) urls = exec_loop (cs @ b) urls" by simp
  have "\<forall>i < length cs. \<not> startsWith (drop i (cs @ b)) (str ''<loc>'')"
  proof (intro allI impI)
    fix i assume "i < length cs"
    then have "Suc i < length (c # cs)" by simp
    with Cons.prems have "\<not> startsWith (drop (Suc i) ((c # cs) @ b)) (str ''<loc>'')" by blast
    then show "\<not> startsWith (drop i (cs @ b)) (str ''<loc>'')" by simp
  qed
  with Cons.IH step show ?case by simp
qed

lemma clean_append:
  assumes "\<forall>i < length a1. \<not> startsWith (drop i (a1 @ a2 @ b)) p"
    and "\<forall>i < length a2. \<not> startsWith (drop i (a2 @ b)) p"
  shows "\<forall>i < length (a1 @ a2). \<not> startsWith (drop i ((a1 @ a2) @ b)) p"
proof (intro allI impI)
  fix i assume i: "i < length (a1 @ a2)"
  show "\<not> startsWith (drop i ((a1 @ a2) @ b)) p"
  proof (cases "i < length a1")
    case True
    with assms(1) show ?thesis by simp
  next
    case False
    with i have "i - length a1 < length a2" by simp
    with assms(2) have "\<not> startsWith (drop (i - length a1) (a2 @ b)) p" by blast
    with False show ?thesis by simp
  qed
qed

lemma clean_no_lt:
  assumes "Latin (CHR ''<'') \<notin> set a"
  shows "\<forall>i < length a. \<not> startsWith (drop i (a @ b)) (str ''<loc>'')"
proof (intro allI impI)
  fix i assume i: "i < length a"
  then have "drop i (a @ b) = (a ! i) # drop (Suc i) (a @ b)"
    by (simp add: Cons_nth_drop_Suc nth_append)
  moreover from i assms have "a ! i \<noteq> Latin (CHR ''<'')" by (metis nth_mem)
  ultimately show "\<not> startsWith (drop i (a @ b)) (str ''<loc>'')"
    by (simp add: startsWith_def)
qed

lemma clean_gap:
  assumes "\<not> str_includes g (str ''<loc>'')"
  shows "\<forall>i < length g. \<not> startsWith (drop i (g @ str ''<loc>'' @ r)) (str ''<loc>'')"
proof (intro allI impI)
  fix i assume i: "i < length g"
  with assms have "\<not> startsWith (drop i g) (str ''<loc>'')"
    using startsWith_drop_includes by blast
  moreover from i have "drop i g \<noteq> []" by simp
  ultimately have "\<not> startsWith (drop i g @ str ''<loc>'' @ r) (str ''<loc>'')"
    by (rule open_no_straddle [rotated])
  with i show "\<not> startsWith (drop i (g @ str ''<loc>'' @ r)) (str ''<loc>'')" by simp
qed

lemma clean_text:
  assumes "\<not> str_includes g (str ''<loc>'')"
  shows "\<forall>i < length g. \<not> startsWith (drop i (g @ str ''</loc>'' @ r)) (str ''<loc>'')"
proof (intro allI impI)
  fix i assume i: "i < length g"
  with assms have "\<not> startsWith (drop i g) (str ''<loc>'')"
    using startsWith_drop_includes by blast
  moreover from i have "drop i g \<noteq> []" by simp
  ultimately have "\<not> startsWith (drop i g @ str ''</loc>'' @ r) (str ''<loc>'')"
    by (rule open_close_no_straddle [rotated])
  with i show "\<not> startsWith (drop i (g @ str ''</loc>'' @ r)) (str ''<loc>'')" by simp
qed

lemma clean_close:
  "\<forall>i < length (str ''</loc>''). \<not> startsWith (drop i (str ''</loc>'' @ r)) (str ''<loc>'')"
proof (intro allI impI)
  fix i assume "i < length (str ''</loc>'')"
  then have "i = 0 \<or> i = 1 \<or> i = 2 \<or> i = 3 \<or> i = 4 \<or> i = 5" by auto
  then show "\<not> startsWith (drop i (str ''</loc>'' @ r)) (str ''<loc>'')"
    by (auto simp: startsWith_def)
qed

lemma exec_loop_gap:
  "\<not> str_includes gap (str ''<loc>'') \<Longrightarrow>
     exec_loop (gap @ str ''<loc>'' @ r) urls = exec_loop (str ''<loc>'' @ r) urls"
  by (rule exec_loop_skip) (rule clean_gap)

lemma lazy_loc_content:
  "\<not> str_includes loc (str ''</loc>'') \<Longrightarrow> \<forall>c \<in> set loc. \<not> is_line_terminator c \<Longrightarrow>
     lazy_loc acc (loc @ str ''</loc>'' @ r) = Some (acc @ loc, r)"
proof (induction loc arbitrary: acc)
  case Nil
  then show ?case by (simp add: startsWith_def)
next
  case (Cons c cs)
  then have a: "\<not> startsWith (c # cs) (str ''</loc>'')" and b: "\<not> str_includes cs (str ''</loc>'')"
    and t: "\<not> is_line_terminator c" and ts: "\<forall>c \<in> set cs. \<not> is_line_terminator c"
    by simp_all
  from close_no_straddle [OF _ a, of r] have "\<not> startsWith (c # (cs @ str ''</loc>'' @ r)) (str ''</loc>'')"
    by simp
  with t have "lazy_loc acc ((c # cs) @ str ''</loc>'' @ r) = lazy_loc (acc @ [c]) (cs @ str ''</loc>'' @ r)"
    by simp
  with Cons.IH [OF b ts, of "acc @ [c]"] show ?case by simp
qed

lemma lazy_loc_fail:
  "\<not> single_line loc \<Longrightarrow> \<not> str_includes loc (str ''</loc>'') \<Longrightarrow>
     lazy_loc acc (loc @ str ''</loc>'' @ r) = None"
proof (induction loc arbitrary: acc)
  case Nil
  then show ?case by (simp add: single_line_def)
next
  case (Cons c cs)
  then have a: "\<not> startsWith (c # cs) (str ''</loc>'')" and b: "\<not> str_includes cs (str ''</loc>'')"
    by simp_all
  from close_no_straddle [OF _ a, of r]
  have n: "\<not> startsWith (c # (cs @ str ''</loc>'' @ r)) (str ''</loc>'')" by simp
  show ?case
  proof (cases "is_line_terminator c")
    case True
    with n show ?thesis by simp
  next
    case False
    with Cons.prems have "\<not> single_line cs" by (simp add: single_line_def)
    from Cons.IH [OF this b, of "acc @ [c]"] n False show ?thesis by simp
  qed
qed

lemma exec_loop_no_open: "\<not> str_includes s (str ''<loc>'') \<Longrightarrow> exec_loop s urls = urls"
  by (induction s) auto

lemma exec_loop_entry:
  assumes "\<not> str_includes gap (str ''<loc>'')" and "\<not> str_includes loc (str ''</loc>'')"
    and "single_line loc"
  shows "exec_loop (gap @ str ''<loc>'' @ loc @ str ''</loc>'' @ r) urls = exec_loop r (urls @ [loc])"
proof -
  from assms(3) have s: "\<forall>c \<in> set loc. \<not> is_line_terminator c"
    by (simp add: single_line_def list_all_iff)
  have "exec_loop (gap @ str ''<loc>'' @ loc @ str ''</loc>'' @ r) urls
      = exec_loop (str ''<loc>'' @ loc @ str ''</loc>'' @ r) urls"
    by (rule exec_loop_gap [OF assms(1)])
  also have "\<dots> = exec_loop r (urls @ [loc])"
    using lazy_loc_content [OF assms(2) s, of "[]" r] by (simp add: startsWith_def)
  finally show ?thesis .
qed

text \<open>A pair whose text runs over a line terminator is passed over as a whole.\<close>

lemma exec_loop_broken_entry:
  assumes "\<not> str_includes gap (str ''<loc>'')" and "\<not> str_includes loc (str ''</loc>'')"
    and "\<not> single_line loc" and "\<not> str_includes loc (str ''<loc>'')"
  shows "exec_loop (gap @ str ''<loc>'' @ loc @ str ''</loc>'' @ r) urls = exec_loop r urls"
proof -
  have "exec_loop (gap @ str ''<loc>'' @ loc @ str ''</loc>'' @ r) urls
      = exec_loop (str ''<loc>'' @ loc @ str ''</loc>'' @ r) urls"
    by (rule exec_loop_gap [OF assms(1)])
  also have "\<dots> = exec_loop (str ''loc>'' @ loc @ str ''</loc>'' @ r) urls"
    using lazy_loc_fail [OF assms(3,2), of "[]" r] by (simp add: startsWith_def)
  also have "\<dots> = exec_loop (((str ''loc>'' @ loc) @ str ''</loc>'') @ r) urls" by simp
  also have "\<dots> = exec_loop r urls"
  proof (rule exec_loop_skip, rule clean_append, rule clean_append)
    show "\<forall>i < length (str ''loc>''). \<not> startsWith (drop i (str ''loc>'' @ loc @ str ''</loc>'' @ r)) (str ''<loc>'')"
      by (rule clean_no_lt) simp
    show "\<forall>i < length loc. \<not> startsWith (drop i (loc @ str ''</loc>'' @ r)) (str ''<loc>'')"
      by (rule clean_text [OF assms(4)])
    show "\<forall>i < length (str ''</loc>''). \<not> startsWith (drop i (str ''</loc>'' @ r)) (str ''<loc>'')"
      by (rule clean_close)
  qed
  finally show ?thesis .
qed

lemma exec_loop_sitemap_text:
  assumes "\<forall>(gap, loc) \<in> set entries. \<not> str_includes gap (str ''<loc>'')
      \<and> \<not> str_includes loc (str ''</loc>'')
      \<and> (\<not> single_line loc \<longrightarrow> \<not> str_includes loc (str ''<loc>''))"
    and "\<not> str_includes rest (str ''<loc>'')"
  shows "exec_loop (sitemap_text entries rest) urls
      = urls @ map snd (filter (\<lambda>(gap, loc). single_line loc) entries)"
  using assms(1)
proof (induction entries arbitrary: urls)
  case Nil
  then show ?case using exec_loop_no_open [OF assms(2)] by (simp add: sitemap_text_def)
next
  case (Cons e es)
  obtain gap loc where e: "e = (gap, loc)" by (cases e)
  from Cons.prems e have h: "\<not> str_includes gap (str ''<loc>'')" "\<not> str_includes loc (str ''</loc>'')"
      "\<not> single_line loc \<longrightarrow> \<not> str_includes loc (str ''<loc>'')" by auto
  from Cons.prems have t: "\<forall>(gap, loc) \<in> set es. \<not> str_includes gap (str ''<loc>'')
      \<and> \<not> str_includes loc (str ''</loc>'')
      \<and> (\<not> single_line loc \<longrightarrow> \<not> str_includes loc (str ''<loc>''))" by simp
  have st: "sitemap_text (e # es) rest = gap @ str ''<loc>'' @ loc @ str ''</loc>'' @ sitemap_text es rest"
    by (simp add: sitemap_text_def e)
  show ?case
  proof (cases "single_line loc")
    case True
    have "exec_loop (sitemap_text (e # es) rest) urls = exec_loop (sitemap_text es rest) (urls @ [loc])"
      unfolding st by (rule exec_loop_entry [OF h(1,2) True])
    also have "\<dots> = (urls @ [loc]) @ map snd (filter (\<lambda>(gap, loc). single_line loc) es)"
      by (rule Cons.IH [OF t])
    finally show ?thesis using True by (simp add: e)
  next
    case False
    with h(3) have o: "\<not> str_includes loc (str ''<loc>'')" by blast
    have "exec_loop (sitemap_text (e # es) rest) urls = exec_loop (sitemap_text es rest) urls"
      unfolding st by (rule exec_loop_broken_entry [OF h(1,2) False o])
    also have "\<dots> = urls @ map snd (filter (\<lambda>(gap, loc). single_line loc) es)"
      by (rule Cons.IH [OF t])
    finally show ?thesis using False by (simp add: e)
  qed
qed

lemma count_open_drop: "count_open (drop n s) \<le> count_open s"
proof (induction s arbitrary: n)
  case Nil
  then show ?case by simp
next
  case (Cons c cs)
  show ?case
  proof (cases n)
    case 0
    then show ?thesis by simp
  next
    case (Suc m)
    with Cons [of m] show ?thesis by simp
  qed
qed

lemma lazy_loc_suffix: "lazy_loc acc r = Some (cap, rest) \<Longrightarrow> \<exists>n. rest = drop n r"
proof (induction acc r rule: lazy_loc.induct)
  case (1 acc)
  then show ?case by simp
next
  case (2 acc c cs)
  show ?case
  proof (cases "startsWith (c # cs) (str ''</loc>'')")
    case True
    with 2 have "rest = drop 6 (c # cs)" by simp
    then show ?thesis by blast
  next
    case False
    with 2 obtain n where "rest = drop n cs" by (auto split: if_splits)
    then have "rest = drop (Suc n) (c # cs)" by simp
    then show ?thesis by blast
  qed
qed

lemma exec_loop_bound: "length (exec_loop s urls) \<le> length urls + count_open s"
proof (induction s urls rule: exec_loop.induct)
  case (1 urls)
  then show ?case by simp
next
  case (2 c cs urls)
  show ?case
  proof (cases "startsWith (c # cs) (str ''<loc>'')")
    case False
    with 2 show ?thesis by simp
  next
    case True
    show ?thesis
    proof (cases "lazy_loc [] (drop 5 (c # cs))")
      case None
      with True 2 show ?thesis by simp
    next
      case (Some m)
      obtain cap rest where m: "m = (cap, rest)" by (cases m)
      from lazy_loc_suffix Some m obtain n where "rest = drop n (drop 5 (c # cs))" by blast
      then have "rest = drop (n + 4) cs" by (simp add: add.commute)
      then have "count_open rest \<le> count_open cs" by (simp add: count_open_drop)
      moreover
      have "length (exec_loop rest (urls @ [cap])) \<le> length (urls @ [cap]) + count_open rest"
        by (rule 2(2) [OF True Some m [symmetric]])
      ultimately show ?thesis using True Some m by simp
    qed
  qed
qed

text \<open>
  Claim C2, as amended.  The dot of the pattern refuses the line terminators (line feed,
  carriage return, U+2028, U+2029).  For a document given by its \<open><loc>\<close> pairs, where no
  gap and not the rest contains \<open><loc>\<close>, no pair's text contains \<open></loc>\<close>, and a text
  that holds a line terminator contains no \<open><loc>\<close>, \<open>parseSitemap\<close> returns exactly
  the texts of the pairs that hold no line terminator, in document order: all \<open>N\<close> texts
  when every pair is on one line, and no string for a pair whose text holds a line
  terminator.  On every input \<open>parseSitemap\<close> returns a list (it is a total function)
  with at most as many strings as the input has \<open><loc>\<close> markers.
\<close>

theorem parseSitemap_pairs:
  assumes "\<forall>(gap, loc) \<in> set entries. \<not> str_includes gap (str ''<loc>'')
      \<and> \<not> str_includes loc (str ''</loc>'')
      \<and> (\<not> single_line loc \<longrightarrow> \<not> str_includes loc (str ''<loc>''))"
    and "\<not> str_includes rest (str ''<loc>'')"
  shows "parseSitemap (sitemap_text entries rest)
      = map snd (filter (\<lambda>(gap, loc). single_line loc) entries)
    \<and> ((\<forall>(gap, loc) \<in> set entries. single_line loc) \<longrightarrow>
         parseSitemap (sitemap_text entries rest) = map snd entries
         \<and> length (parseSitemap (sitemap_text entries rest)) = length entries)
    \<and> length (parseSitemap xml) \<le> count_open xml"
proof -
  have a: "parseSitemap (sitemap_text entries rest)
      = map snd (filter (\<lambda>(gap, loc). single_line loc) entries)"
    using exec_loop_sitemap_text [OF assms, of "[]"] by (simp add: parseSitemap_def)
  have "filter (\<lambda>(gap, loc). single_line loc) entries = entries"
    if "\<forall>(gap, loc) \<in> set entries. single_line loc"
    using that by (intro filter_True) auto
  with a have b: "(\<forall>(gap, loc) \<in> set entries. single_line loc) \<longrightarrow>
         parseSitemap (sitemap_text entries rest) = map snd entries
         \<and> length (parseSitemap (sitemap_text entries rest)) = length entries"
    by simp
  have c: "length (parseSitemap xml) \<le> count_open xml"
    using exec_loop_bound [of xml "[]"] by (simp add: parseSitemap_def)
  from a b c show ?thesis by blast
qed

text \<open>
  Claim C2 as stated fails: a well-formed document whose one \<open><loc>\<close> element holds its
  URL on a line of its own yields no string, and so does one whose URL is followed by the
  separator U+2028.
\<close>

theorem parseSitemap_multiline_counterexample:
  "parseSitemap (str ''<urlset><url><loc>'' @ [Latin (CHR 0x0A)] @ str ''https://a.org/''
      @ [Latin (CHR 0x0A)] @ str ''</loc></url></urlset>'') = []
   \<and> parseSitemap (str ''<urlset><url><loc>https://a.org/'' @ [LineSeparator]
      @ str ''</loc></url></urlset>'') = []"
  by code_simp

theorem parseSitemap_pairs_witness:
  "parseSitemap (str ''<urlset><url><loc>https://a.org/</loc></url><url><loc>'' @ [Latin (CHR 0x0A)]
      @ str ''https://b.org/x'' @ [Latin (CHR 0x0A)] @ str ''</loc></url><url><loc>https://c.org/</loc></url></urlset>'')
     = [str ''https://a.org/'', str ''https://c.org/'']
   \<and> parseSitemap (str ''<urlset><url><loc>https://a.org/</loc></url><url><loc>https://c.org/</loc></url></urlset>'')
     = [str ''https://a.org/'', str ''https://c.org/'']"
proof -
  let ?broken = "[Latin (CHR 0x0A)] @ str ''https://b.org/x'' @ [Latin (CHR 0x0A)]"
  let ?e3 = "[(str ''<urlset><url>'', str ''https://a.org/''), (str ''</url><url>'', ?broken),
      (str ''</url><url>'', str ''https://c.org/'')]"
  let ?e2 = "[(str ''<urlset><url>'', str ''https://a.org/''), (str ''</url><url>'', str ''https://c.org/'')]"
  have h3: "\<forall>(gap, loc) \<in> set ?e3. \<not> str_includes gap (str ''<loc>'')
      \<and> \<not> str_includes loc (str ''</loc>'')
      \<and> (\<not> single_line loc \<longrightarrow> \<not> str_includes loc (str ''<loc>''))"
    by code_simp
  have h2: "\<forall>(gap, loc) \<in> set ?e2. \<not> str_includes gap (str ''<loc>'')
      \<and> \<not> str_includes loc (str ''</loc>'')
      \<and> (\<not> single_line loc \<longrightarrow> \<not> str_includes loc (str ''<loc>''))"
    by code_simp
  have s2: "\<forall>(gap, loc) \<in> set ?e2. single_line loc"
    by code_simp
  have r: "\<not> str_includes (str ''</url></urlset>'') (str ''<loc>'')"
    by code_simp
  have f: "map snd (filter (\<lambda>(gap, loc). single_line loc) ?e3) = [str ''https://a.org/'', str ''https://c.org/'']"
    by code_simp
  from parseSitemap_pairs [OF h3 r] f
  have "parseSitemap (sitemap_text ?e3 (str ''</url></urlset>'')) = [str ''https://a.org/'', str ''https://c.org/'']"
    by simp
  moreover from parseSitemap_pairs [OF h2 r] s2
  have "parseSitemap (sitemap_text ?e2 (str ''</url></urlset>'')) = map snd ?e2"
    by blast
  ultimately show ?thesis by (simp add: sitemap_text_def)
qed

lemma lower_char_low:
  assumes "lower_char c = d" and "(of_char d :: nat) < 97"
  shows "c = d"
proof (rule ccontr)
  assume n: "c \<noteq> d"
  define m where "m = (of_char c :: nat)"
  from assms(1) n have r: "(65 \<le> m \<and> m \<le> 90) \<or> (192 \<le> m \<and> m \<le> 222 \<and> m \<noteq> 215)"
    and e: "char_of (m + 32) = d"
    by (auto simp: lower_char_def Let_def m_def split: if_splits)
  from e have "(of_char (char_of (m + 32)) :: nat) = of_char d" by simp
  then have "(m + 32) mod 256 = of_char d" by simp
  with r assms(2) show False by auto
qed

lemma lower_unit_lt: "lower_unit u = Latin (CHR ''<'') \<Longrightarrow> u = Latin (CHR ''<'')"
  by (cases u) (auto dest: lower_char_low)

lemma lower_unit_gt: "lower_unit u = Latin (CHR ''>'') \<Longrightarrow> u = Latin (CHR ''>'')"
  by (cases u) (auto dest: lower_char_low)

lemma lower_char_marks: "lower_char CHR ''<'' = CHR ''<''" "lower_char CHR ''>'' = CHR ''>''"
  by code_simp+

lemma tag_close_None: "tag_close r = None \<longleftrightarrow> Latin (CHR ''>'') \<notin> set r"
  by (induction r) auto

text \<open>A text in which a block was found holds a \<open>>\<close> behind the opening tag name.\<close>

lemma ci_startsWith_last:
  assumes "ci_startsWith s (p @ [Latin (CHR ''>'')])"
  shows "Latin (CHR ''>'') \<in> set s"
proof -
  from assms have l: "length p < length s"
    and e: "toLowerCase (take (Suc (length p)) s) = toLowerCase (p @ [Latin (CHR ''>'')])"
    by (simp_all add: ci_startsWith_def)
  from l have "take (Suc (length p)) s = take (length p) s @ [s ! length p]"
    by (simp add: take_Suc_conv_app_nth)
  with e have "lower_unit (s ! length p) = Latin (CHR ''>'')"
    by (simp add: toLowerCase_def lower_char_marks)
  then have "s ! length p = Latin (CHR ''>'')" by (rule lower_unit_gt)
  with l show ?thesis by (metis nth_mem)
qed

lemma block_close_gt: "block_close tag r = Some rest \<Longrightarrow> Latin (CHR ''>'') \<in> set r"
proof (induction tag r rule: block_close.induct)
  case (1 tag)
  then show ?case by simp
next
  case (2 tag c cs)
  show ?case
  proof (cases "c \<noteq> Latin (CHR ''<'')")
    case True
    with 2 show ?thesis by simp
  next
    case False
    show ?thesis
    proof (cases "ci_startsWith (c # cs) (str ''</'' @ tag @ str ''>'')")
      case True
      then have "ci_startsWith (c # cs) ((str ''</'' @ tag) @ [Latin (CHR ''>'')])" by simp
      then show ?thesis by (rule ci_startsWith_last)
    next
      case n: False
      with False 2 show ?thesis by simp
    qed
  qed
qed

lemma remove_blocks_no_tag:
  assumes "tag \<noteq> []" and "lower_unit (hd tag) \<noteq> Latin (CHR ''>'')"
  shows "\<not> has_tag s \<Longrightarrow> remove_blocks tag s = s"
proof (induction s)
  case Nil
  then show ?case by simp
next
  case (Cons c cs)
  then have ih: "remove_blocks tag cs = cs" by simp
  have "block_close tag (drop (length tag + 1) (c # cs)) = None"
    if o: "ci_startsWith (c # cs) (str ''<'' @ tag)"
  proof (rule ccontr)
    assume "block_close tag (drop (length tag + 1) (c # cs)) \<noteq> None"
    then obtain rest where "block_close tag (drop (length tag) cs) = Some rest" by auto
    then have g: "Latin (CHR ''>'') \<in> set (drop (length tag) cs)" by (rule block_close_gt)
    from assms(1) obtain t ts where tag: "tag = t # ts" by (cases tag) auto
    from o tag obtain d ds where cs: "cs = d # ds"
      by (cases cs) (auto simp: ci_startsWith_def)
    from o tag cs have c: "lower_unit c = Latin (CHR ''<'')" and d: "lower_unit d = lower_unit t"
      by (auto simp: ci_startsWith_def toLowerCase_def lower_char_marks)
    from c have "c = Latin (CHR ''<'')" by (rule lower_unit_lt)
    moreover from d assms(2) tag have "d \<noteq> Latin (CHR ''>'')"
      by (auto simp: lower_char_marks)
    moreover from g tag cs have "Latin (CHR ''>'') \<in> set ds"
      using set_drop_subset [of "length ts" ds] by auto
    ultimately have "has_tag (c # cs)" by (simp add: cs)
    with Cons.prems show False by blast
  qed
  with ih show ?case by (auto split: option.splits)
qed

lemma strip_tags_no_tag: "\<not> has_tag s \<Longrightarrow> strip_tags s = s"
proof (induction s)
  case Nil
  then show ?case by simp
next
  case (Cons c cs)
  then have ih: "strip_tags cs = cs" by simp
  show ?case
  proof (cases cs)
    case Nil
    then show ?thesis by simp
  next
    case (Cons d ds)
    have "tag_close ds = None" if "c = Latin (CHR ''<'')" "d \<noteq> Latin (CHR ''>'')"
      using that Cons.prems Cons unfolding tag_close_None by auto
    with ih Cons show ?thesis by (auto split: option.splits)
  qed
qed

lemma replace_all_no_occurrence: "\<not> str_includes s p \<Longrightarrow> replace_all p rep s = s"
  by (induction s) auto

lemma collapse_ws_head: "s \<noteq> [] \<Longrightarrow> \<not> is_space (hd s) \<Longrightarrow> collapse_ws s \<noteq> [] \<and> hd (collapse_ws s) = hd s"
  by (cases s) auto

lemma dropWhile_head: "dropWhile P s \<noteq> [] \<Longrightarrow> \<not> P (hd (dropWhile P s))"
  using hd_dropWhile by blast

lemma normal_collapse_ws: "normal_ws (collapse_ws s)"
proof (induction s rule: collapse_ws.induct)
  case 1
  then show ?case by simp
next
  case (2 c cs)
  show ?case
  proof (cases "is_space c")
    case True
    define r where "r = dropWhile is_space cs"
    have "case collapse_ws r of [] \<Rightarrow> True | d # ds \<Rightarrow> \<not> is_space d"
    proof (cases "r = []")
      case True
      then show ?thesis by simp
    next
      case False
      with dropWhile_head [of is_space cs] collapse_ws_head [of r]
      have "collapse_ws r \<noteq> [] \<and> \<not> is_space (hd (collapse_ws r))" by (simp add: r_def)
      then show ?thesis by (cases "collapse_ws r") auto
    qed
    with True 2 show ?thesis by (simp add: r_def)
  next
    case False
    with 2 show ?thesis by simp
  qed
qed

lemma normal_ws_suffix: "normal_ws (a @ b) \<Longrightarrow> normal_ws b"
  by (induction a) auto

lemma normal_ws_prefix: "normal_ws (a @ b) \<Longrightarrow> normal_ws a"
proof (induction a)
  case Nil
  then show ?case by simp
next
  case (Cons c cs)
  then show ?case by (cases cs) (auto split: list.splits)
qed

lemma normal_ws_trim: "normal_ws s \<Longrightarrow> normal_ws (trim s)"
proof -
  assume n: "normal_ws s"
  let ?a = "dropWhile is_space s"
  have "s = takeWhile is_space s @ ?a" by simp
  with n have a: "normal_ws ?a" using normal_ws_suffix by metis
  have "?a = rev (dropWhile is_space (rev ?a)) @ rev (takeWhile is_space (rev ?a))"
    by (metis rev_append rev_rev_ident takeWhile_dropWhile_id)
  with a have "normal_ws (rev (dropWhile is_space (rev ?a)))" using normal_ws_prefix by metis
  then show ?thesis by (simp add: trim_def)
qed

lemma collapse_ws_normal: "normal_ws s \<Longrightarrow> collapse_ws s = s"
proof (induction s)
  case Nil
  then show ?case by simp
next
  case (Cons c cs)
  then show ?case by (cases cs) auto
qed

lemma trim_trim: "trim (trim s) = trim s"
proof -
  define a where "a = dropWhile is_space s"
  define b where "b = dropWhile is_space (rev a)"
  have t: "trim s = rev b" by (simp add: trim_def a_def b_def)
  have bb: "dropWhile is_space b = b" by (simp add: b_def)
  have "dropWhile is_space (rev b) = rev b"
  proof (cases "b = []")
    case True
    then show ?thesis by simp
  next
    case False
    then have "rev a \<noteq> []" by (auto simp: b_def)
    then have an: "a \<noteq> []" by simp
    then have h: "\<not> is_space (hd a)" unfolding a_def by (rule dropWhile_head)
    have "rev a = takeWhile is_space (rev a) @ b" by (simp add: b_def)
    then have "last (rev a) = last b" using False by (metis last_appendR)
    then have "last b = hd a" using an by (simp add: last_rev)
    with h False have "\<not> is_space (hd (rev b))" by (simp add: hd_rev)
    then show ?thesis using False by (cases "rev b") auto
  qed
  with bb show ?thesis unfolding t by (simp add: trim_def)
qed

lemma no_entity:
  assumes "\<not> has_entity t"
  shows "\<not> str_includes t (str ''&nbsp;'')" "\<not> str_includes t (str ''&amp;'')"
    "\<not> str_includes t (str ''&lt;'')" "\<not> str_includes t (str ''&gt;'')"
    "\<not> str_includes t (str ''&quot;'')" "\<not> str_includes t (str ''&#39;'')"
  using assms by (simp_all add: has_entity_def entity_names_def)

lemma remove_blocks_length: "length (remove_blocks tag s) \<le> length s"
proof (induction s rule: length_induct)
  case (1 s)
  show ?case
  proof (cases s)
    case Nil
    then show ?thesis by simp
  next
    case (Cons c cs)
    have ih: "length (remove_blocks tag cs) \<le> length cs" using 1 Cons by simp
    show ?thesis
    proof (cases "block_close tag (drop (length tag + 1) (c # cs))")
      case None
      with ih show ?thesis unfolding Cons by simp
    next
      case (Some rest)
      from block_close_length [OF Some] have r: "length rest < length s" unfolding Cons by simp
      with 1 have "length (remove_blocks tag rest) \<le> length rest" by blast
      with r ih Some show ?thesis unfolding Cons by simp
    qed
  qed
qed

lemma remove_blocks_same: "length (remove_blocks tag s) = length s \<Longrightarrow> remove_blocks tag s = s"
proof (induction s)
  case Nil
  then show ?case by simp
next
  case (Cons c cs)
  define found where "found = (if ci_startsWith (c # cs) (str ''<'' @ tag) \<and> word_boundary (drop (length tag + 1) (c # cs))
    then block_close tag (drop (length tag + 1) (c # cs)) else None)"
  have rb: "remove_blocks tag (c # cs) =
      (case found of Some rest \<Rightarrow> remove_blocks tag rest | None \<Rightarrow> c # remove_blocks tag cs)"
    unfolding found_def by (auto split: option.splits)
  show ?case
  proof (cases found)
    case None
    with Cons show ?thesis unfolding rb by simp
  next
    case (Some rest)
    then have "block_close tag (drop (length tag + 1) (c # cs)) = Some rest"
      unfolding found_def by (simp split: if_splits)
    from block_close_length [OF this] have "length rest < length (c # cs)" by simp
    with remove_blocks_length [of tag rest] have "length (remove_blocks tag rest) < length (c # cs)"
      by simp
    with Cons.prems Some show ?thesis unfolding rb by simp
  qed
qed

lemma strip_tags_Cons:
  "strip_tags (c # cs) =
     (if c = Latin (CHR ''<'') \<and> cs \<noteq> [] \<and> hd cs \<noteq> Latin (CHR ''>'') \<and> tag_close (tl cs) \<noteq> None
      then Latin (CHR '' '') # strip_tags (the (tag_close (tl cs)))
      else c # strip_tags cs)"
  by (cases cs) (auto split: option.splits)

lemma strip_tags_length: "length (strip_tags s) \<le> length s"
proof (induction s rule: length_induct)
  case (1 s)
  show ?case
  proof (cases s)
    case Nil
    then show ?thesis by simp
  next
    case (Cons c cs)
    have ih: "length (strip_tags cs) \<le> length cs" using 1 Cons by simp
    define tagged where "tagged \<longleftrightarrow>
      c = Latin (CHR ''<'') \<and> cs \<noteq> [] \<and> hd cs \<noteq> Latin (CHR ''>'') \<and> tag_close (tl cs) \<noteq> None"
    have sc: "strip_tags (c # cs) =
        (if tagged then Latin (CHR '' '') # strip_tags (the (tag_close (tl cs))) else c # strip_tags cs)"
      unfolding tagged_def by (rule strip_tags_Cons)
    show ?thesis
    proof (cases tagged)
      case False
      with ih show ?thesis unfolding Cons sc by simp
    next
      case True
      then obtain rest where r: "tag_close (tl cs) = Some rest" unfolding tagged_def by auto
      from tag_close_length [OF r] True have l: "length rest < length cs"
        unfolding tagged_def by (cases cs) auto
      with 1 Cons have "length (strip_tags rest) \<le> length rest" by simp
      with l True r show ?thesis unfolding Cons sc by simp
    qed
  qed
qed

lemma strip_tags_shorter: "has_tag s \<Longrightarrow> length (strip_tags s) < length s"
proof (induction s)
  case Nil
  then show ?case by simp
next
  case (Cons c cs)
  define tagged where "tagged \<longleftrightarrow>
    c = Latin (CHR ''<'') \<and> cs \<noteq> [] \<and> hd cs \<noteq> Latin (CHR ''>'') \<and> tag_close (tl cs) \<noteq> None"
  have sc: "strip_tags (c # cs) =
      (if tagged then Latin (CHR '' '') # strip_tags (the (tag_close (tl cs))) else c # strip_tags cs)"
    unfolding tagged_def by (rule strip_tags_Cons)
  show ?case
  proof (cases tagged)
    case True
    then obtain rest where r: "tag_close (tl cs) = Some rest" unfolding tagged_def by auto
    from tag_close_length [OF r] True have l: "length rest < length cs"
      unfolding tagged_def by (cases cs) auto
    with strip_tags_length [of rest] True r show ?thesis unfolding sc by simp
  next
    case False
    have "\<not> (c = Latin (CHR ''<'')
        \<and> (case cs of [] \<Rightarrow> False | d # ds \<Rightarrow> d \<noteq> Latin (CHR ''>'') \<and> Latin (CHR ''>'') \<in> set ds))"
      using False tag_close_None [of "tl cs"] unfolding tagged_def by (cases cs) auto
    with Cons.prems have "has_tag cs" by simp
    then have "length (strip_tags cs) < length cs" by (rule Cons.IH)
    with False show ?thesis unfolding sc by simp
  qed
qed

lemma startsWith_length: "startsWith s p \<Longrightarrow> length p \<le> length s"
  unfolding startsWith_def by (metis length_take min.cobounded1)

lemma replace_all_length:
  "length rep \<le> length pat \<Longrightarrow> length (replace_all pat rep s) \<le> length s"
proof (induction s rule: length_induct)
  case (1 s)
  show ?case
  proof (cases s)
    case Nil
    then show ?thesis by simp
  next
    case (Cons c cs)
    show ?thesis
    proof (cases "pat \<noteq> [] \<and> startsWith (c # cs) pat")
      case True
      then have "startsWith (c # cs) pat" by blast
      then have p: "length pat \<le> length (c # cs)" by (rule startsWith_length)
      from True have "length (drop (length pat) (c # cs)) < length s" unfolding Cons by simp
      with 1 have "length (replace_all pat rep (drop (length pat) (c # cs)))
          \<le> length (drop (length pat) (c # cs))" by blast
      with p True "1.prems" show ?thesis unfolding Cons by simp
    next
      case False
      from 1 Cons have "length (replace_all pat rep cs) \<le> length cs" by simp
      with False show ?thesis unfolding Cons by auto
    qed
  qed
qed

lemma replace_all_shorter:
  "length rep < length pat \<Longrightarrow> str_includes s pat \<Longrightarrow> length (replace_all pat rep s) < length s"
proof (induction s)
  case Nil
  then show ?case by simp
next
  case (Cons c cs)
  show ?case
  proof (cases "pat \<noteq> [] \<and> startsWith (c # cs) pat")
    case True
    then have "startsWith (c # cs) pat" by blast
      then have p: "length pat \<le> length (c # cs)" by (rule startsWith_length)
    have "length (replace_all pat rep (drop (length pat) (c # cs))) \<le> length (drop (length pat) (c # cs))"
      using Cons.prems(1) by (intro replace_all_length) simp
    with p True Cons.prems(1) show ?thesis by simp
  next
    case False
    from Cons.prems(1) have "pat \<noteq> []" by auto
    with False Cons.prems(2) have "str_includes cs pat" by simp
    with Cons.IH Cons.prems(1) have "length (replace_all pat rep cs) < length cs" by simp
    with False show ?thesis by auto
  qed
qed

lemma collapse_ws_length: "length (collapse_ws s) \<le> length s"
proof (induction s rule: length_induct)
  case (1 s)
  show ?case
  proof (cases s)
    case Nil
    then show ?thesis by simp
  next
    case (Cons c cs)
    have d: "length (dropWhile is_space cs) \<le> length cs" by (rule length_dropWhile_le)
    with 1 Cons have "length (collapse_ws (dropWhile is_space cs)) \<le> length (dropWhile is_space cs)"
      by simp
    moreover from 1 Cons have "length (collapse_ws cs) \<le> length cs" by simp
    ultimately show ?thesis using d unfolding Cons by simp
  qed
qed

lemma trim_length: "length (trim s) \<le> length s"
proof -
  have "length (trim s) \<le> length (dropWhile is_space s)"
    unfolding trim_def using length_dropWhile_le [of is_space "rev (dropWhile is_space s)"] by simp
  also have "\<dots> \<le> length s" by (rule length_dropWhile_le)
  finally show ?thesis .
qed

text \<open>A text that holds a tag or an entity name gets shorter.\<close>

lemma extractTextFromHtml_shorter:
  assumes "has_tag t \<or> has_entity t"
  shows "length (extractTextFromHtml t) < length t"
proof -
  define t1 where "t1 = remove_blocks (str ''script'') t"
  define t2 where "t2 = remove_blocks (str ''style'') t1"
  define t3 where "t3 = strip_tags t2"
  define t4 where "t4 = replace_all (str ''&nbsp;'') (str '' '') t3"
  define t5 where "t5 = replace_all (str ''&amp;'') (str ''&'') t4"
  define t6 where "t6 = replace_all (str ''&lt;'') (str ''<'') t5"
  define t7 where "t7 = replace_all (str ''&gt;'') (str ''>'') t6"
  define t8 where "t8 = replace_all (str ''&quot;'') [Latin (CHR 0x22)] t7"
  define t9 where "t9 = replace_all (str ''&#39;'') [Latin (CHR 0x27)] t8"
  have e: "extractTextFromHtml t = trim (collapse_ws t9)"
    by (simp add: extractTextFromHtml_def Let_def t1_def t2_def t3_def t4_def t5_def t6_def t7_def
        t8_def t9_def)
  have l: "length (extractTextFromHtml t) \<le> length t9"
    unfolding e using trim_length [of "collapse_ws t9"] collapse_ws_length [of t9] by simp
  have l1: "length t1 \<le> length t" unfolding t1_def by (rule remove_blocks_length)
  have l2: "length t2 \<le> length t1" unfolding t2_def by (rule remove_blocks_length)
  have l3: "length t3 \<le> length t2" unfolding t3_def by (rule strip_tags_length)
  have l4: "length t4 \<le> length t3" unfolding t4_def by (rule replace_all_length) simp
  have l5: "length t5 \<le> length t4" unfolding t5_def by (rule replace_all_length) simp
  have l6: "length t6 \<le> length t5" unfolding t6_def by (rule replace_all_length) simp
  have l7: "length t7 \<le> length t6" unfolding t7_def by (rule replace_all_length) simp
  have l8: "length t8 \<le> length t7" unfolding t8_def by (rule replace_all_length) simp
  have l9: "length t9 \<le> length t8" unfolding t9_def by (rule replace_all_length) simp
  show ?thesis
  proof (rule ccontr)
    assume "\<not> length (extractTextFromHtml t) < length t"
    with l l1 l2 l3 l4 l5 l6 l7 l8 l9
    have q: "length t1 = length t" "length t2 = length t1" "length t3 = length t2"
      "length t4 = length t3" "length t5 = length t4" "length t6 = length t5"
      "length t7 = length t6" "length t8 = length t7" "length t9 = length t8"
      by linarith+
    have n3: "\<not> has_tag t2"
      using strip_tags_shorter [of t2] q(3) unfolding t3_def by auto
    have n4: "\<not> str_includes t3 (str ''&nbsp;'')"
      using replace_all_shorter [of "str '' ''" "str ''&nbsp;''" t3] q(4) unfolding t4_def by auto
    have n5: "\<not> str_includes t4 (str ''&amp;'')"
      using replace_all_shorter [of "str ''&''" "str ''&amp;''" t4] q(5) unfolding t5_def by auto
    have n6: "\<not> str_includes t5 (str ''&lt;'')"
      using replace_all_shorter [of "str ''<''" "str ''&lt;''" t5] q(6) unfolding t6_def by auto
    have n7: "\<not> str_includes t6 (str ''&gt;'')"
      using replace_all_shorter [of "str ''>''" "str ''&gt;''" t6] q(7) unfolding t7_def by auto
    have n8: "\<not> str_includes t7 (str ''&quot;'')"
      using replace_all_shorter [of "[Latin (CHR 0x22)]" "str ''&quot;''" t7] q(8) unfolding t8_def by auto
    have n9: "\<not> str_includes t8 (str ''&#39;'')"
      using replace_all_shorter [of "[Latin (CHR 0x27)]" "str ''&#39;''" t8] q(9) unfolding t9_def by auto
    have e3: "t3 = t2" unfolding t3_def using n3 by (rule strip_tags_no_tag)
    have e4: "t4 = t3" unfolding t4_def using n4 by (rule replace_all_no_occurrence)
    have e5: "t5 = t4" unfolding t5_def using n5 by (rule replace_all_no_occurrence)
    have e6: "t6 = t5" unfolding t6_def using n6 by (rule replace_all_no_occurrence)
    have e7: "t7 = t6" unfolding t7_def using n7 by (rule replace_all_no_occurrence)
    have e8: "t8 = t7" unfolding t8_def using n8 by (rule replace_all_no_occurrence)
    have s1: "t1 = t" unfolding t1_def using q(1) [unfolded t1_def] by (rule remove_blocks_same)
    have s2: "t2 = t1" unfolding t2_def using q(2) [unfolded t2_def] by (rule remove_blocks_same)
    from n3 n4 n5 n6 n7 n8 n9 have "\<not> has_tag t \<and> \<not> has_entity t"
      unfolding e8 e7 e6 e5 e4 e3 s2 s1 by (simp add: has_entity_def entity_names_def)
    with assms show False by blast
  qed
qed

text \<open>
  Claim C3, as amended.  Entities are decoded after the tags are stripped, so the extracted
  text may hold a tag or an entity name again, which a second run removes or decodes.
  Running \<open>extractTextFromHtml\<close> on its own output changes nothing exactly when that
  output holds no tag (no match of \<open><[^>]+>\<close>) and none of the six entity names; a lone
  \<open><\<close> or \<open>&\<close> in the output does no harm.
\<close>

theorem extractTextFromHtml_idempotent_plain:
  "extractTextFromHtml (extractTextFromHtml h) = extractTextFromHtml h
     \<longleftrightarrow> \<not> has_tag (extractTextFromHtml h) \<and> \<not> has_entity (extractTextFromHtml h)"
proof
  assume i: "extractTextFromHtml (extractTextFromHtml h) = extractTextFromHtml h"
  show "\<not> has_tag (extractTextFromHtml h) \<and> \<not> has_entity (extractTextFromHtml h)"
  proof (rule ccontr)
    assume "\<not> (\<not> has_tag (extractTextFromHtml h) \<and> \<not> has_entity (extractTextFromHtml h))"
    then have "has_tag (extractTextFromHtml h) \<or> has_entity (extractTextFromHtml h)" by blast
    then have "length (extractTextFromHtml (extractTextFromHtml h)) < length (extractTextFromHtml h)"
      by (rule extractTextFromHtml_shorter)
    with i show False by simp
  qed
next
  assume a: "\<not> has_tag (extractTextFromHtml h) \<and> \<not> has_entity (extractTextFromHtml h)"
  obtain u where t: "extractTextFromHtml h = trim (collapse_ws u)"
    by (simp add: extractTextFromHtml_def Let_def)
  define t' where "t' = extractTextFromHtml h"
  from a have a1: "\<not> has_tag t'" and a2: "\<not> has_entity t'" unfolding t'_def by blast+
  have n: "normal_ws t'" unfolding t'_def t by (rule normal_ws_trim) (rule normal_collapse_ws)
  have s1: "remove_blocks (str ''script'') t' = t'"
    using a1 by (intro remove_blocks_no_tag) (simp_all add: lower_char_def)
  have s2: "remove_blocks (str ''style'') t' = t'"
    using a1 by (intro remove_blocks_no_tag) (simp_all add: lower_char_def)
  have s3: "strip_tags t' = t'"
    using a1 by (rule strip_tags_no_tag)
  note e = no_entity [OF a2]
  note s4 = e [THEN replace_all_no_occurrence]
  have "extractTextFromHtml t' = trim (collapse_ws t')"
    unfolding extractTextFromHtml_def [of t'] Let_def s1 s2 s3 s4 ..
  also have "\<dots> = trim t'" using n by (simp add: collapse_ws_normal)
  also have "\<dots> = t'" unfolding t'_def t by (rule trim_trim)
  finally show "extractTextFromHtml (extractTextFromHtml h) = extractTextFromHtml h"
    unfolding t'_def .
qed

text \<open>
  Claim C3 as stated fails: the first run decodes \<open>&lt;b&gt;\<close> to the text \<open><b>\<close>,
  which the second run strips as a tag.
\<close>

theorem extractTextFromHtml_idempotent_counterexample:
  "extractTextFromHtml (str ''<p>Use &lt;b&gt; for bold</p>'') = str ''Use <b> for bold''
   \<and> extractTextFromHtml (extractTextFromHtml (str ''<p>Use &lt;b&gt; for bold</p>'')) = str ''Use for bold''
   \<and> extractTextFromHtml (extractTextFromHtml (str ''<p>Use &lt;b&gt; for bold</p>''))
       \<noteq> extractTextFromHtml (str ''<p>Use &lt;b&gt; for bold</p>'')"
  by code_simp


theorem extractTextFromHtml_idempotent_plain_witness:
  "extractTextFromHtml (str ''<p>Tom &amp; Jerry:   a &lt; b</p>'') = str ''Tom & Jerry: a < b''
   \<and> extractTextFromHtml (extractTextFromHtml (str ''<p>Tom &amp; Jerry:   a &lt; b</p>''))
       = str ''Tom & Jerry: a < b''
   \<and> has_tag (extractTextFromHtml (str ''<p>Use &lt;b&gt; for bold</p>''))
   \<and> extractTextFromHtml (extractTextFromHtml (str ''<p>Use &lt;b&gt; for bold</p>''))
       \<noteq> extractTextFromHtml (str ''<p>Use &lt;b&gt; for bold</p>'')"
proof -
  have e: "extractTextFromHtml (str ''<p>Tom &amp; Jerry:   a &lt; b</p>'') = str ''Tom & Jerry: a < b''"
    by code_simp
  have h1: "\<not> has_tag (extractTextFromHtml (str ''<p>Tom &amp; Jerry:   a &lt; b</p>''))"
    unfolding e by code_simp
  have h2: "\<not> has_entity (extractTextFromHtml (str ''<p>Tom &amp; Jerry:   a &lt; b</p>''))"
    unfolding e by code_simp
  have b: "extractTextFromHtml (str ''<p>Use &lt;b&gt; for bold</p>'') = str ''Use <b> for bold''"
    by code_simp
  have h3: "has_tag (extractTextFromHtml (str ''<p>Use &lt;b&gt; for bold</p>''))"
    unfolding b by code_simp
  from extractTextFromHtml_idempotent_plain [of "str ''<p>Tom &amp; Jerry:   a &lt; b</p>''"] h1 h2
  have "extractTextFromHtml (extractTextFromHtml (str ''<p>Tom &amp; Jerry:   a &lt; b</p>''))
      = extractTextFromHtml (str ''<p>Tom &amp; Jerry:   a &lt; b</p>'')"
    by blast
  moreover from extractTextFromHtml_idempotent_plain [of "str ''<p>Use &lt;b&gt; for bold</p>''"] h3
  have "extractTextFromHtml (extractTextFromHtml (str ''<p>Use &lt;b&gt; for bold</p>''))
      \<noteq> extractTextFromHtml (str ''<p>Use &lt;b&gt; for bold</p>'')"
    by blast
  ultimately show ?thesis using e h3 by simp
qed

section \<open>Properties of the design-standards server\<close>

lemma search_loop_Cons:
  "search_loop cs t pth ((k, v) # rest) results =
     search_loop cs t pth rest
       (if is_container v
        then search_loop cs t (pth @ [k]) (own_entries v)
               (results @ (if key_path_check cs t (pth @ [k], k, v) then [node_record (pth @ [k], k, v)] else []))
        else (results @ (if key_path_check cs t (pth @ [k], k, v) then [node_record (pth @ [k], k, v)] else []))
               @ (if value_check cs t (pth @ [k], k, v) then [node_record (pth @ [k], k, v)] else []))"
  by (cases v)
     (auto simp: Let_def key_path_check_def value_check_def node_record_def is_container_def
           simp del: own_entries.simps)

lemma value_check_container: "is_container v \<Longrightarrow> \<not> value_check cs t (p, k, v)"
  by (cases v) (auto simp: value_check_def is_container_def)

lemma search_loop_nodes:
  "search_loop cs t pth es results = results @ concat (map (node_matches cs t) (nodes pth es))"
proof (induction "entries_size es" arbitrary: es pth results rule: less_induct)
  case less
  show ?case
  proof (cases es)
    case Nil
    then show ?thesis by simp
  next
    case (Cons e rest)
    obtain k v where e: "e = (k, v)" by (cases e)
    have rest: "search_loop cs t pth rest acc = acc @ concat (map (node_matches cs t) (nodes pth rest))"
      for acc
      by (rule less) (simp add: Cons e entries_size_rest)
    have inner: "search_loop cs t (pth @ [k]) (own_entries v) acc
          = acc @ concat (map (node_matches cs t) (nodes (pth @ [k]) (own_entries v)))"
      if "is_container v" for acc
      by (rule less) (use that in \<open>simp add: Cons e entries_size_own is_container_def\<close>)
    show ?thesis
    proof (cases "is_container v")
      case True
      then show ?thesis
        unfolding Cons e search_loop_Cons
        by (simp add: inner rest node_matches_def value_check_container del: own_entries.simps)
    next
      case False
      then show ?thesis
        unfolding Cons e search_loop_Cons
        by (simp add: rest node_matches_def del: own_entries.simps)
    qed
  qed
qed







lemma set_prop_fresh: "k \<notin> fst ` set ps \<Longrightarrow> set_prop ps k v = ps @ [(k, v)]"
  by (induction ps) auto

lemma properties_acc_distinct:
  "distinct (map fst (ps @ kvs)) \<Longrightarrow> foldl (\<lambda>ps (k, v). set_prop ps k v) ps kvs = ps @ kvs"
proof (induction kvs arbitrary: ps)
  case Nil
  then show ?case by simp
next
  case (Cons e kvs)
  obtain k v where e: "e = (k, v)" by (cases e)
  from Cons.prems have f: "k \<notin> fst ` set ps" by (auto simp: e)
  from Cons.prems have d: "distinct (map fst ((ps @ [(k, v)]) @ kvs))" by (simp add: e)
  show ?case using Cons.IH [OF d] by (simp add: e set_prop_fresh [OF f])
qed

lemma properties_distinct: "distinct (map fst kvs) \<Longrightarrow> properties kvs = kvs"
  using properties_acc_distinct [of "[]" kvs] by (simp add: properties_def)

lemma entry_order_named: "list_all (\<lambda>(k, v). \<not> is_array_index k) ps \<Longrightarrow> entry_order ps = ps"
proof -
  assume a: "list_all (\<lambda>(k, v). \<not> is_array_index k) ps"
  then have "filter (\<lambda>(k, v). is_array_index k) ps = []"
    by (auto simp: filter_empty_conv list_all_iff)
  moreover from a have "filter (\<lambda>(k, v). \<not> is_array_index k) ps = ps"
    by (auto simp: filter_id_conv list_all_iff)
  ultimately show ?thesis by (simp add: entry_order_def)
qed

lemma set_insert_index: "set (insert_index e xs) = insert e (set xs)"
  by (induction xs) auto

lemma set_index_sort: "set (foldr insert_index xs []) = set xs"
  by (induction xs) (simp_all add: set_insert_index)

lemma sorted_insert_index:
  "sorted (map (\<lambda>(k, v). index_value k) xs) \<Longrightarrow>
     sorted (map (\<lambda>(k, v). index_value k) (insert_index e xs))"
  by (induction xs) (auto simp: set_insert_index case_prod_unfold)

lemma sorted_index_sort: "sorted (map (\<lambda>(k, v). index_value k) (foldr insert_index xs []))"
  by (induction xs) (simp_all add: sorted_insert_index)

lemma entry_order_indices:
  "filter (\<lambda>(k, v). is_array_index k) (entry_order ps)
     = foldr insert_index (filter (\<lambda>(k, v). is_array_index k) ps) []"
proof -
  have "\<forall>x \<in> set (foldr insert_index (filter (\<lambda>(k, v). is_array_index k) ps) []).
      (\<lambda>(k, v). is_array_index k) x"
    unfolding set_index_sort by simp
  then have "filter (\<lambda>(k, v). is_array_index k) (foldr insert_index (filter (\<lambda>(k, v). is_array_index k) ps) [])
      = foldr insert_index (filter (\<lambda>(k, v). is_array_index k) ps) []"
    by (intro filter_True) blast
  moreover have "filter (\<lambda>(k, v). is_array_index k) (filter (\<lambda>(k, v). \<not> is_array_index k) ps) = []"
    by (auto simp: filter_empty_conv)
  ultimately show ?thesis by (simp add: entry_order_def)
qed

lemma entry_order_named_keys:
  "filter (\<lambda>(k, v). \<not> is_array_index k) (entry_order ps)
     = filter (\<lambda>(k, v). \<not> is_array_index k) ps"
proof -
  have "\<forall>x \<in> set (foldr insert_index (filter (\<lambda>(k, v). is_array_index k) ps) []).
      \<not> (\<lambda>(k, v). \<not> is_array_index k) x"
    unfolding set_index_sort by auto
  then have "filter (\<lambda>(k, v). \<not> is_array_index k) (foldr insert_index (filter (\<lambda>(k, v). is_array_index k) ps) [])
      = []"
    unfolding filter_empty_conv by blast
  then show ?thesis by (simp add: entry_order_def)
qed

lemma entry_order_split:
  "entry_order ps = filter (\<lambda>(k, v). is_array_index k) (entry_order ps)
     @ filter (\<lambda>(k, v). \<not> is_array_index k) (entry_order ps)"
  unfolding entry_order_indices entry_order_named_keys by (simp add: entry_order_def)

lemma entry_order_sorted:
  "sorted (map (\<lambda>(k, v). index_value k) (filter (\<lambda>(k, v). is_array_index k) (entry_order ps)))"
  unfolding entry_order_indices by (rule sorted_index_sort)

lemma set_entry_order: "set (entry_order ps) = set ps"
  by (auto simp: entry_order_def set_index_sort)

text \<open>
  Claim C1, as amended.  The records of \<open>searchDesignStandards\<close> are those of the nodes
  of the document, taken depth first from the root, the members of each object in the
  order in which \<open>Object.entries\<close> lists them.  For an object whose keys are all
  different that is: the members whose keys are array indices first, in ascending numeric
  order, then the other members in the order of the document; it is the order of the
  document when no key is an array index.  A node gives at most two records: one when its
  key or path contains the search term, one when its value is a string containing it.
  When both checks succeed the node gives the same record twice, one after the other;
  nothing removes the duplicate.
\<close>

theorem search_records:
  "searchDesignStandards doc query caseSensitive
     = concat (map (node_matches caseSensitive (if caseSensitive then query else toLowerCase query))
         (nodes [] (own_entries doc)))
   \<and> length (node_matches caseSensitive t n) \<le> 2
   \<and> (key_path_check caseSensitive t n \<and> value_check caseSensitive t n \<longrightarrow>
        node_matches caseSensitive t n = [node_record n, node_record n])
   \<and> (distinct (map fst kvs) \<longrightarrow>
        own_entries (JObj kvs)
          = filter (\<lambda>(k, v). is_array_index k) (own_entries (JObj kvs))
            @ filter (\<lambda>(k, v). \<not> is_array_index k) (own_entries (JObj kvs))
        \<and> sorted (map (\<lambda>(k, v). index_value k) (filter (\<lambda>(k, v). is_array_index k) (own_entries (JObj kvs))))
        \<and> filter (\<lambda>(k, v). \<not> is_array_index k) (own_entries (JObj kvs))
          = filter (\<lambda>(k, v). \<not> is_array_index k) kvs
        \<and> set (own_entries (JObj kvs)) = set kvs)
   \<and> (distinct (map fst kvs) \<and> list_all (\<lambda>(k, v). \<not> is_array_index k) kvs \<longrightarrow>
        own_entries (JObj kvs) = kvs)"
proof -
  have a: "searchDesignStandards doc query caseSensitive
     = concat (map (node_matches caseSensitive (if caseSensitive then query else toLowerCase query))
         (nodes [] (own_entries doc)))"
    by (simp add: searchDesignStandards_def searchObject_def search_loop_nodes)
  have b: "length (node_matches caseSensitive t n) \<le> 2"
    by (simp add: node_matches_def)
  have c: "key_path_check caseSensitive t n \<and> value_check caseSensitive t n \<longrightarrow>
        node_matches caseSensitive t n = [node_record n, node_record n]"
    by (simp add: node_matches_def)
  have d: "own_entries (JObj kvs)
          = filter (\<lambda>(k, v). is_array_index k) (own_entries (JObj kvs))
            @ filter (\<lambda>(k, v). \<not> is_array_index k) (own_entries (JObj kvs))
        \<and> sorted (map (\<lambda>(k, v). index_value k) (filter (\<lambda>(k, v). is_array_index k) (own_entries (JObj kvs))))
        \<and> filter (\<lambda>(k, v). \<not> is_array_index k) (own_entries (JObj kvs))
          = filter (\<lambda>(k, v). \<not> is_array_index k) kvs
        \<and> set (own_entries (JObj kvs)) = set kvs"
    if "distinct (map fst kvs)"
  proof -
    from that have p: "own_entries (JObj kvs) = entry_order kvs" by (simp add: properties_distinct)
    show ?thesis
      unfolding p using entry_order_split [of kvs] entry_order_sorted [of kvs]
        entry_order_named_keys [of kvs] set_entry_order [of kvs] by blast
  qed
  have e: "distinct (map fst kvs) \<and> list_all (\<lambda>(k, v). \<not> is_array_index k) kvs \<longrightarrow>
        own_entries (JObj kvs) = kvs"
    by (simp add: properties_distinct entry_order_named)
  from a b c d e show ?thesis by blast
qed

text \<open>
  Claim C1 as stated fails: the document declares the shades in the order b, 10, a, 2, and
  the records of their values come in the order 2, 10, b, a.
\<close>

theorem search_records_order_counterexample:
  "searchDesignStandards example_shades (str ''x'') False
     = [\<lparr>path = str ''shades.2'', key = str ''2'', val = JStr (str ''x4'')\<rparr>,
        \<lparr>path = str ''shades.10'', key = str ''10'', val = JStr (str ''x2'')\<rparr>,
        \<lparr>path = str ''shades.b'', key = str ''b'', val = JStr (str ''x1'')\<rparr>,
        \<lparr>path = str ''shades.a'', key = str ''a'', val = JStr (str ''x3'')\<rparr>]"
  by code_simp

theorem search_records_witness:
  "node_matches False (str ''a'') ([str ''colors'', str ''primary''], str ''primary'', JStr (str ''#AB292C''))
     = [\<lparr>path = str ''colors.primary'', key = str ''primary'', val = JStr (str ''#AB292C'')\<rparr>,
        \<lparr>path = str ''colors.primary'', key = str ''primary'', val = JStr (str ''#AB292C'')\<rparr>]
   \<and> searchDesignStandards example_tokens (str ''A'') False
     = [\<lparr>path = str ''brands'', key = str ''brands'', val = JObj []\<rparr>,
        \<lparr>path = str ''colors.primary'', key = str ''primary'', val = JStr (str ''#AB292C'')\<rparr>,
        \<lparr>path = str ''colors.primary'', key = str ''primary'', val = JStr (str ''#AB292C'')\<rparr>]
   \<and> own_entries example_tokens
     = [(str ''brands'', JObj []), (str ''colors'', JObj [(str ''primary'', JStr (str ''#AB292C''))])]
   \<and> filter (\<lambda>(k, v). \<not> is_array_index k)
        (own_entries (JObj [(str ''b'', JNull), (str ''10'', JNull), (str ''a'', JNull), (str ''2'', JNull)]))
     = [(str ''b'', JNull), (str ''a'', JNull)]"
proof -
  let ?n = "([str ''colors'', str ''primary''], str ''primary'', JStr (str ''#AB292C''))"
  let ?kvs = "[(str ''brands'', JObj []), (str ''colors'', JObj [(str ''primary'', JStr (str ''#AB292C''))])]"
  let ?shades = "[(str ''b'', JNull), (str ''10'', JNull), (str ''a'', JNull), (str ''2'', JNull)]"
  have h: "key_path_check False (str ''a'') ?n \<and> value_check False (str ''a'') ?n"
    by code_simp
  have d: "distinct (map fst ?kvs) \<and> list_all (\<lambda>(k, v). \<not> is_array_index k) ?kvs"
    by code_simp
  have ds: "distinct (map fst ?shades)"
    by code_simp
  have fs: "filter (\<lambda>(k, v). \<not> is_array_index k) ?shades = [(str ''b'', JNull), (str ''a'', JNull)]"
    by code_simp
  have r: "node_record ?n = \<lparr>path = str ''colors.primary'', key = str ''primary'', val = JStr (str ''#AB292C'')\<rparr>"
    by code_simp
  have l: "toLowerCase (str ''A'') = str ''a''" by code_simp
  have ns: "nodes [] ?kvs
      = [([str ''brands''], str ''brands'', JObj []),
         ([str ''colors''], str ''colors'', JObj [(str ''primary'', JStr (str ''#AB292C''))]), ?n]"
    by code_simp
  have b: "node_matches False (str ''a'') ([str ''brands''], str ''brands'', JObj [])
      = [\<lparr>path = str ''brands'', key = str ''brands'', val = JObj []\<rparr>]"
    by code_simp
  have o: "node_matches False (str ''a'') ([str ''colors''], str ''colors'', JObj [(str ''primary'', JStr (str ''#AB292C''))]) = []"
    by code_simp
  note t = search_records [of example_tokens "str ''A''" False "str ''a''" ?n ?kvs]
  note u = search_records [of example_tokens "str ''A''" False "str ''a''" ?n ?shades]
  from t h have m: "node_matches False (str ''a'') ?n = [node_record ?n, node_record ?n]"
    by blast
  from t d have e: "own_entries example_tokens = ?kvs"
    unfolding example_tokens_def by blast
  from u ds have "filter (\<lambda>(k, v). \<not> is_array_index k) (own_entries (JObj ?shades))
      = filter (\<lambda>(k, v). \<not> is_array_index k) ?shades"
    by blast
  then have f: "filter (\<lambda>(k, v). \<not> is_array_index k) (own_entries (JObj ?shades))
      = [(str ''b'', JNull), (str ''a'', JNull)]"
    unfolding fs .
  from t have "searchDesignStandards example_tokens (str ''A'') False
      = concat (map (node_matches False (toLowerCase (str ''A''))) (nodes [] (own_entries example_tokens)))"
    by simp
  then have "searchDesignStandards example_tokens (str ''A'') False
      = [\<lparr>path = str ''brands'', key = str ''brands'', val = JObj []\<rparr>, node_record ?n, node_record ?n]"
    unfolding l e ns using m b o by simp
  with m e f show ?thesis by (simp only: r)
qed

lemma declarations_loop_append: "declarations_loop es (a @ b) = a @ declarations_loop es b"
  by (induction es arbitrary: b) auto

lemma declarations_loop_Cons: "declarations_loop es (c # b) = c # declarations_loop es b"
  using declarations_loop_append [of es "[c]" b] by simp














text \<open>
  Claim C6.  A search that finds nothing is not an error: when the sitemap was fetched and
  no URL matches, \<open>search_events\<close> returns the "No URLs found" text without
  \<open>isError\<close>; when no record matches, \<open>search_design_standards\<close> returns the
  "No results found" text without \<open>isError\<close>.
\<close>

theorem zero_results_not_error:
  "(EVENT_SITES s = Some es \<and> fetchContent net (baseUrl es @ sitemapPath es) = Inr xml
      \<and> search_matches (parseSitemap xml) pattern caseInsensitive = [] \<longrightarrow>
      search_events net s pattern caseInsensitive =
        \<lparr>content_text = str ''No URLs found matching pattern '' @ quoted pattern @ str '' in the ''
           @ name es @ str '' sitemap.'', isError = None\<rparr>)
   \<and> (searchDesignStandards doc query caseSensitive = [] \<longrightarrow>
      search_design_standards stringify show_number doc query caseSensitive maxResults =
        \<lparr>content_text = str ''No results found for '' @ quoted query, isError = None\<rparr>)"
  by (simp add: search_events_def search_design_standards_def catch_all_def ok_envelope_def
      quoted_def Let_def)

theorem zero_results_not_error_witness:
  "isError (search_events example_net Pmc (str ''zzz'') True) = None
   \<and> isError (search_design_standards example_stringify show_int example_standards (str ''nonexistent-xyz'') False 20) = None"
proof -
  let ?es = "\<lparr>name = str ''Pan-Mass Challenge'', baseUrl = str ''https://www.pmc.org'',
      sitemapPath = str ''/sitemap.xml''\<rparr>"
  let ?xml = "str ''<loc>a</loc><loc>b</loc><loc>c</loc>''"
  have h1: "EVENT_SITES Pmc = Some ?es \<and> fetchContent example_net (baseUrl ?es @ sitemapPath ?es) = Inr ?xml
      \<and> search_matches (parseSitemap ?xml) (str ''zzz'') True = []"
    by code_simp
  have h2: "searchDesignStandards example_standards (str ''nonexistent-xyz'') False = []"
    by code_simp
  note t = zero_results_not_error [where s = Pmc and es = ?es and net = example_net and xml = ?xml
      and pattern = "str ''zzz''" and caseInsensitive = True and doc = example_standards
      and query = "str ''nonexistent-xyz''" and caseSensitive = False and stringify = example_stringify
      and show_number = show_int and maxResults = 20]
  from t h1 have "isError (search_events example_net Pmc (str ''zzz'') True) = None" by simp
  moreover from t h2
  have "isError (search_design_standards example_stringify show_int example_standards (str ''nonexistent-xyz'') False 20) = None"
    by simp
  ultimately show ?thesis by simp
qed





end
